theory Spec2Isabelle
  imports Main "HOL-Library.Word"
begin

section \<open>The fluent surface of \<^verbatim>\<open>mysqlx/collection_crud.h\<close>\<close>

subsection \<open>Classes, templates and their public members\<close>

text \<open>
  The header fixes which call may follow which by the return types of its methods.
  A class is a value of \<open>class_type\<close>; the two class templates of the stage
  machinery, \<^verbatim>\<open>Limit<R,H>\<close> and \<^verbatim>\<open>CollectionSort<R,H>\<close>, are constructors taking
  their arguments, so that the typedefs of the header are ordinary terms.  References
  and values of a class have the same members, hence \<^verbatim>\<open>CollectionAdd&\<close> and
  \<^verbatim>\<open>CollectionAdd\<close> are one \<open>class_type\<close>.
\<close>

datatype method_name =
    add_m | sort_m | limit_m | offset_m | bind_m | execute_m
  | set_m | unset_m | arrayInsert_m | arrayAppend_m | arrayDelete_m

datatype class_type =
    Result
  | Executable
  | BindExec
  | Offset
  | Limit class_type class_type
  | CollectionSort class_type class_type
  | RemoveExec
  | FindExec
  | CollectionModifyInterface
  | CollectionModifyOp
  | CollectionModify
  | CollectionAddInterface class_type
  | CollectionAdd
  | CollectionAddBase

text \<open>The typedefs of the header (lines 333-334, 381-382, 422-423); the second template
  argument defaults to the first (\<^verbatim>\<open>typename H=R\<close>).\<close>

definition CollectionRemoveLimit :: class_type where
  "CollectionRemoveLimit = Limit BindExec BindExec"

definition CollectionRemoveOrder :: class_type where
  "CollectionRemoveOrder = CollectionSort CollectionRemoveLimit CollectionRemoveLimit"

definition CollectionFindLimit :: class_type where
  "CollectionFindLimit = Limit Offset BindExec"

definition CollectionFindSort :: class_type where
  "CollectionFindSort = CollectionSort CollectionFindLimit CollectionFindLimit"

definition CollectionModifyLimit :: class_type where
  "CollectionModifyLimit = Limit BindExec BindExec"

definition CollectionModifySort :: class_type where
  "CollectionModifySort = CollectionSort CollectionModifyLimit CollectionModifyLimit"

text \<open>
  Modelled from the spec: the classes \<^verbatim>\<open>Executable\<close>, \<^verbatim>\<open>BindExec\<close>, \<^verbatim>\<open>Offset\<close> and the
  template \<^verbatim>\<open>Limit\<close> are declared in \<^verbatim>\<open>mysqlx/common.h\<close> and \<^verbatim>\<open>mysqlx/task.h\<close>, which
  are not part of the sources.  Their members follow section 4.1 of the specification
  (\<open>Sort \<rightarrow> Limit \<rightarrow> Offset \<rightarrow> Bind \<rightarrow> Execute\<close>) and the signatures of the overriding hooks
  in the header: \<^verbatim>\<open>Offset& FindExec::do_limit(unsigned)\<close>,
  \<^verbatim>\<open>BindExec& FindExec::do_offset(unsigned)\<close>, \<^verbatim>\<open>BindExec& RemoveExec::do_limit(unsigned)\<close>.
  \<^verbatim>\<open>Limit<R,H>\<close> is shaped like \<^verbatim>\<open>CollectionSort<R,H>\<close>: it derives from \<open>H\<close> and its
  \<^verbatim>\<open>limit\<close> returns \<open>R&\<close>.
\<close>

definition Executable_members :: "(method_name \<times> class_type) list" where
  "Executable_members = [(execute_m, Result)]"

definition BindExec_members :: "(method_name \<times> class_type) list" where
  "BindExec_members = (bind_m, BindExec) # Executable_members"

definition Offset_members :: "(method_name \<times> class_type) list" where
  "Offset_members = (offset_m, BindExec) # BindExec_members"

text \<open>The update methods of \<^verbatim>\<open>CollectionModifyInterface\<close> (lines 437-450), each returning
  \<^verbatim>\<open>CollectionModifyOp&\<close>.\<close>

definition CollectionModifyInterface_members :: "(method_name \<times> class_type) list" where
  "CollectionModifyInterface_members =
     [(set_m, CollectionModifyOp), (unset_m, CollectionModifyOp),
      (arrayInsert_m, CollectionModifyOp), (arrayAppend_m, CollectionModifyOp),
      (arrayDelete_m, CollectionModifyOp)]"

text \<open>A measure for \<open>members\<close>: it decreases from a class to each class whose members it
  takes over.\<close>

fun inheritance_depth :: "class_type \<Rightarrow> nat" where
  "inheritance_depth (Limit R H) = Suc (inheritance_depth H)"
| "inheritance_depth (CollectionSort R H) = Suc (inheritance_depth H)"
| "inheritance_depth RemoveExec = 3"
| "inheritance_depth FindExec = 3"
| "inheritance_depth CollectionModifyOp = 3"
| "inheritance_depth CollectionAdd = 1"
| "inheritance_depth CollectionAddBase = 1"
| "inheritance_depth c = 0"

text \<open>
  The methods a caller can name on an object of a class, each with the class of what it
  returns: the public methods the class declares, then those of its public bases.
  The \<^verbatim>\<open>do_*\<close> hooks are private (public only in \<^verbatim>\<open>RemoveExec\<close>, which no public
  member function returns) and are not listed.  \<^verbatim>\<open>CollectionModify\<close> names \<^verbatim>\<open>CollectionModifyOp\<close>
  as a base without an access specifier, so that base is private and only the members of
  its public virtual base \<^verbatim>\<open>CollectionModifyInterface\<close> are accessible.
\<close>

function members :: "class_type \<Rightarrow> (method_name \<times> class_type) list" where
  "members Result = []"
| "members Executable = Executable_members"
| "members BindExec = BindExec_members"
| "members Offset = Offset_members"
| "members (Limit R H) = (limit_m, R) # members H"
| "members (CollectionSort R H) = (sort_m, R) # members H"
| "members RemoveExec = members (CollectionSort (Limit BindExec BindExec) (Limit BindExec BindExec))"
| "members FindExec =
     members (CollectionSort (Limit Offset BindExec) (Limit Offset BindExec)) @ Offset_members"
| "members CollectionModifyInterface = CollectionModifyInterface_members"
| "members CollectionModifyOp =
     CollectionModifyInterface_members
     @ members (CollectionSort (Limit BindExec BindExec) (Limit BindExec BindExec))"
| "members CollectionModify = CollectionModifyInterface_members"
| "members (CollectionAddInterface R) = [(add_m, R)]"
| "members CollectionAdd = Executable_members @ members (CollectionAddInterface CollectionAdd)"
| "members CollectionAddBase = members (CollectionAddInterface CollectionAdd)"
  by pat_completeness auto
termination
  by (relation "measure inheritance_depth") simp_all

definition lookup :: "class_type \<Rightarrow> method_name \<Rightarrow> class_type option" where
  "lookup c m = map_of (members c) m"

text \<open>A call chain \<^verbatim>\<open>x.m1(..).m2(..)...\<close> on an object of class \<open>c\<close>: the class of its value,
  or \<open>None\<close> when some call names no accessible member (the chain does not compile).\<close>

fun chain :: "class_type \<Rightarrow> method_name list \<Rightarrow> class_type option" where
  "chain c [] = Some c"
| "chain c (m # ms) = (case lookup c m of None \<Rightarrow> None | Some c' \<Rightarrow> chain c' ms)"

text \<open>
  The stage order of section 4.1 of the specification: update steps (and \<^verbatim>\<open>add\<close>) first,
  then \<^verbatim>\<open>sort\<close>, \<^verbatim>\<open>limit\<close>, \<^verbatim>\<open>offset\<close>, \<^verbatim>\<open>bind\<close>, \<^verbatim>\<open>execute\<close>.  A chain follows the order
  when every call comes at a strictly later stage than all calls before it, except that
  update steps, \<^verbatim>\<open>add\<close> and \<^verbatim>\<open>bind\<close> may be repeated.
\<close>

fun stage_rank :: "method_name \<Rightarrow> nat" where
  "stage_rank sort_m = 1"
| "stage_rank limit_m = 2"
| "stage_rank offset_m = 3"
| "stage_rank bind_m = 4"
| "stage_rank execute_m = 5"
| "stage_rank m = 0"

definition stage_before :: "method_name \<Rightarrow> method_name \<Rightarrow> bool" where
  "stage_before a b =
     (stage_rank a < stage_rank b \<or> (stage_rank a = stage_rank b \<and> stage_rank a \<in> {0, 4}))"

definition stage_order :: "method_name list \<Rightarrow> bool" where
  "stage_order ms = sorted_wrt stage_before ms"

text \<open>The update calls of Modify: the methods of \<^verbatim>\<open>CollectionModifyInterface\<close>.\<close>

definition update_calls :: "method_name set" where
  "update_calls = {set_m, unset_m, arrayInsert_m, arrayAppend_m, arrayDelete_m}"

text \<open>Every \<^verbatim>\<open>offset\<close> call of the chain comes directly after a \<^verbatim>\<open>limit\<close> call.\<close>

fun offset_follows_limit :: "method_name list \<Rightarrow> bool" where
  "offset_follows_limit (limit_m # offset_m # ms) = offset_follows_limit ms"
| "offset_follows_limit (offset_m # ms) = False"
| "offset_follows_limit (m # ms) = offset_follows_limit ms"
| "offset_follows_limit [] = True"

section \<open>What the calls do\<close>

subsection \<open>Failures and sequencing\<close>

text \<open>The error kinds of section 7 of the specification: what a C++ exception of the
  connector carries in this model.\<close>

datatype error =
    InvalidArgument | StageMisuse | EmptyBatch | UnresolvedBinding
  | CollectionGone | Transport | ServerError | Cancelled

text \<open>A call either returns, or raises an exception, or (where the header dereferences a
  null pointer) has undefined behaviour.  The virtual hooks return \<open>error + 's\<close>: they can
  raise, but the null dereference belongs to the header's own code.\<close>

datatype failure = Raised error | NullDereference

text \<open>The statements \<^verbatim>\<open>x.f(a1); x.f(a2); ... x.f(aN);\<close> on one object: the first exception
  ends the sequence.\<close>

fun in_sequence :: "('a \<Rightarrow> 's \<Rightarrow> error + 's) \<Rightarrow> 'a list \<Rightarrow> 's \<Rightarrow> error + 's" where
  "in_sequence f [] s = Inr s"
| "in_sequence f (a # as) s =
     (case f a s of Inl e \<Rightarrow> Inl e | Inr s' \<Rightarrow> in_sequence f as s')"

subsection \<open>\<^verbatim>\<open>CollectionSort<R,H>::sort\<close> (lines 282-319)\<close>

text \<open>
  An argument of \<^verbatim>\<open>sort\<close>.  \<open>Text k\<close> is a \<^verbatim>\<open>const string&\<close> or a \<^verbatim>\<open>const char*\<close>, for which
  overload resolution picks one of the two non-template overloads.  \<open>Iterable c els\<close> is
  a value of any other type \<^verbatim>\<open>Ord\<close>, which goes to the template \<^verbatim>\<open>sort(Ord)\<close>: \<open>els\<close> are
  the elements its range-for visits, and \<open>c\<close> is the string that \<^verbatim>\<open>do_sort(ord)\<close>
  receives, that is \<^verbatim>\<open>ord\<close> converted to \<^verbatim>\<open>const string&\<close> (the template body compiles only
  for an \<^verbatim>\<open>Ord\<close> with such a conversion).
\<close>

datatype 'e sort_arg = Text string | Iterable string "'e list"

fun as_string :: "'e sort_arg \<Rightarrow> string" where
  "as_string (Text k) = k"
| "as_string (Iterable c els) = c"

text \<open>
  The loop of the template overload:
  \<^verbatim>\<open>R* ret = NULL; for(auto el : ord) { ret = &do_sort(ord); }\<close>.
  The hook is the pure virtual \<^verbatim>\<open>do_sort\<close>; it gets the object and returns it modified.
  \<open>ret\<close> is \<open>None\<close> for the null pointer.  The body passes \<^verbatim>\<open>ord\<close>, not \<^verbatim>\<open>el\<close>.
\<close>

fun sort_loop ::
  "(string \<Rightarrow> 's \<Rightarrow> error + 's) \<Rightarrow> string \<Rightarrow> 'e list \<Rightarrow> 's option \<Rightarrow> 's \<Rightarrow> error + ('s option \<times> 's)"
where
  "sort_loop do_sort ord [] ret this = Inr (ret, this)"
| "sort_loop do_sort ord (el # els) ret this =
     (case do_sort ord this of
        Inl e \<Rightarrow> Inl e
      | Inr this' \<Rightarrow> sort_loop do_sort ord els (Some this') this')"

text \<open>\<^verbatim>\<open>template <typename Ord> R& sort(Ord ord)\<close>: the loop, then \<^verbatim>\<open>return *ret;\<close>.\<close>

definition sort_iterable ::
  "(string \<Rightarrow> 's \<Rightarrow> error + 's) \<Rightarrow> string \<Rightarrow> 'e list \<Rightarrow> 's \<Rightarrow> failure + 's"
where
  "sort_iterable do_sort ord els this =
     (case sort_loop do_sort ord els None this of
        Inl e \<Rightarrow> Inl (Raised e)
      | Inr (None, _) \<Rightarrow> Inl NullDereference
      | Inr (Some r, _) \<Rightarrow> Inr r)"

text \<open>
  A call \<^verbatim>\<open>sort(a, rest...)\<close>, by the number and kind of its arguments: the two
  non-template overloads, the template for an iterable, and the variadic template
  \<^verbatim>\<open>do_sort(ord); return sort(rest...);\<close> for two arguments or more.
\<close>

fun CollectionSort_sort ::
  "(string \<Rightarrow> 's \<Rightarrow> error + 's) \<Rightarrow> 'e sort_arg \<Rightarrow> 'e sort_arg list \<Rightarrow> 's \<Rightarrow> failure + 's"
where
  "CollectionSort_sort do_sort (Text ord) [] this =
     (case do_sort ord this of Inl e \<Rightarrow> Inl (Raised e) | Inr r \<Rightarrow> Inr r)"
| "CollectionSort_sort do_sort (Iterable c els) [] this = sort_iterable do_sort c els this"
| "CollectionSort_sort do_sort ord (r # rest) this =
     (case do_sort (as_string ord) this of
        Inl e \<Rightarrow> Inl (Raised e)
      | Inr this' \<Rightarrow> CollectionSort_sort do_sort r rest this')"

text \<open>What the specification asks of the iterable overload: one \<^verbatim>\<open>do_sort\<close> per element,
  in the iterable's order.\<close>

definition sort_per_element ::
  "(string \<Rightarrow> 's \<Rightarrow> error + 's) \<Rightarrow> string list \<Rightarrow> 's \<Rightarrow> error + 's"
where
  "sort_per_element do_sort els this = in_sequence do_sort els this"

subsection \<open>Adding documents (lines 125-274)\<close>

text \<open>A reference to a \<^verbatim>\<open>Collection\<close> is the identity of the object it refers to.\<close>

type_synonym Collection = nat

text \<open>The two overloads of \<^verbatim>\<open>do_add\<close>: a JSON string or a \<^verbatim>\<open>DbDoc\<close>.\<close>

datatype 'd document = Json string | Doc 'd

text \<open>
  \<^verbatim>\<open>CollectionAddInterface<R>\<close> holds the reference \<^verbatim>\<open>m_coll\<close>; \<^verbatim>\<open>CollectionAdd\<close> adds the
  \<^verbatim>\<open>Executable\<close> base sub-object, of a type \<open>'x\<close> that the header does not fix.
  \<^verbatim>\<open>CollectionAddBase\<close> has no data of its own.
\<close>

record CollectionAddInterface =
  m_coll :: Collection

record 'x CollectionAdd = CollectionAddInterface +
  executable :: 'x

type_synonym CollectionAddBase = CollectionAddInterface

text \<open>
  What \<^verbatim>\<open>CollectionAdd\<close> uses and the header only declares: the default and the move
  constructor of \<^verbatim>\<open>Executable\<close> (the latter gives the new object and what is left of its
  source), \<^verbatim>\<open>initialize()\<close>, the two \<^verbatim>\<open>do_add\<close> overloads, and what the macro
  \<^verbatim>\<open>CATCH_AND_WRAP\<close> makes of a caught exception.  The hooks work on the \<^verbatim>\<open>Executable\<close>
  sub-object: \<^verbatim>\<open>m_coll\<close> is a reference member and cannot be reseated, and \<^verbatim>\<open>do_add\<close>
  returns \<^verbatim>\<open>*this\<close> (comment at lines 199-205).
\<close>

record ('x, 'd) CollectionAdd_impl =
  Executable_ctor :: 'x
  Executable_move :: "'x \<Rightarrow> 'x \<times> 'x"
  initialize :: "'x \<Rightarrow> error + 'x"
  do_add :: "'d document \<Rightarrow> 'x \<Rightarrow> error + 'x"
  wrap :: "error \<Rightarrow> error"

definition CATCH_AND_WRAP :: "(error \<Rightarrow> error) \<Rightarrow> error + 'a \<Rightarrow> error + 'a" where
  "CATCH_AND_WRAP w r = (case r of Inl e \<Rightarrow> Inl (w e) | Inr v \<Rightarrow> Inr v)"

definition CollectionAdd_do_add ::
  "('x, 'd) CollectionAdd_impl \<Rightarrow> 'd document \<Rightarrow> 'x CollectionAdd \<Rightarrow> error + 'x CollectionAdd"
where
  "CollectionAdd_do_add impl doc this =
     (case do_add impl doc (executable this) of
        Inl e \<Rightarrow> Inl e
      | Inr x \<Rightarrow> Inr (this\<lparr>executable := x\<rparr>))"

text \<open>The private constructor (lines 223-229):
  \<^verbatim>\<open>CollectionAdd(Collection &coll, const D &doc) : Base(coll) { initialize(); do_add(doc); }\<close>.\<close>

definition CollectionAdd_ctor ::
  "('x, 'd) CollectionAdd_impl \<Rightarrow> Collection \<Rightarrow> 'd document \<Rightarrow> error + 'x CollectionAdd"
where
  "CollectionAdd_ctor impl coll doc =
     (case initialize impl (Executable_ctor impl) of
        Inl e \<Rightarrow> Inl e
      | Inr x \<Rightarrow> CollectionAdd_do_add impl doc \<lparr>m_coll = coll, executable = x\<rparr>)"

text \<open>The move constructor (lines 211-213):
  \<^verbatim>\<open>CollectionAdd(CollectionAdd &&other) : Executable(std::move(other)), Base(other.m_coll)\<close>.
  The result is the new object and the moved-from \<open>other\<close>.\<close>

definition CollectionAdd_move ::
  "('x, 'd) CollectionAdd_impl \<Rightarrow> 'x CollectionAdd \<Rightarrow> 'x CollectionAdd \<times> 'x CollectionAdd"
where
  "CollectionAdd_move impl other =
     (case Executable_move impl (executable other) of
        (x, left) \<Rightarrow> (\<lparr>m_coll = m_coll other, executable = x\<rparr>, other\<lparr>executable := left\<rparr>))"

text \<open>
  \<^verbatim>\<open>CollectionAddInterface<CollectionAdd&>::add\<close>, called on a \<^verbatim>\<open>CollectionAdd\<close>; the result
  is \<open>None\<close> for a call that does not compile.  \<^verbatim>\<open>add(doc)\<close> is \<^verbatim>\<open>return do_add(doc);\<close>.
  \<^verbatim>\<open>add(first, rest...)\<close> is
  \<^verbatim>\<open>try { return std::move(do_add(first).add(rest...)); } CATCH_AND_WRAP\<close> (line 177): here
  \<open>R\<close> is \<^verbatim>\<open>CollectionAdd&\<close>, and the return statement initialises this non-const lvalue
  reference with the xvalue that \<^verbatim>\<open>std::move\<close> gives, which C++ does not allow.  The
  variadic template is ill-formed when it is instantiated for a \<^verbatim>\<open>CollectionAdd\<close>, so a
  call with two documents or more does not compile.
\<close>

fun CollectionAdd_add ::
  "('x, 'd) CollectionAdd_impl \<Rightarrow> 'd document \<Rightarrow> 'd document list \<Rightarrow> 'x CollectionAdd
     \<Rightarrow> (error + 'x CollectionAdd) option"
where
  "CollectionAdd_add impl doc [] this = Some (CollectionAdd_do_add impl doc this)"
| "CollectionAdd_add impl first (r # rest) this = None"

text \<open>\<^verbatim>\<open>CollectionAddBase::do_add\<close> (lines 263-271): \<^verbatim>\<open>return CollectionAdd(m_coll, doc);\<close>.\<close>

definition CollectionAddBase_do_add ::
  "('x, 'd) CollectionAdd_impl \<Rightarrow> 'd document \<Rightarrow> CollectionAddBase \<Rightarrow> error + 'x CollectionAdd"
where
  "CollectionAddBase_do_add impl doc this = CollectionAdd_ctor impl (m_coll this) doc"

text \<open>
  \<^verbatim>\<open>CollectionAddInterface<CollectionAdd>::add\<close>, called on a \<^verbatim>\<open>CollectionAddBase\<close>; the
  result is \<open>None\<close> for a call that does not compile.  Here \<open>R\<close> is \<^verbatim>\<open>CollectionAdd\<close>:
  \<^verbatim>\<open>do_add(first)\<close> makes a \<^verbatim>\<open>CollectionAdd\<close>, \<^verbatim>\<open>add(rest...)\<close> is called on it, and the value
  returned is move-constructed from it (comment at lines 169-175).  With one further
  document \<^verbatim>\<open>add(rest...)\<close> is \<^verbatim>\<open>add(doc)\<close> of the \<^verbatim>\<open>CollectionAdd\<close>, that is its \<^verbatim>\<open>do_add(doc)\<close>;
  with two or more it instantiates the variadic \<^verbatim>\<open>add\<close> of \<^verbatim>\<open>CollectionAdd\<close>, which is
  ill-formed, so the call does not compile.
\<close>

fun CollectionAddBase_add ::
  "('x, 'd) CollectionAdd_impl \<Rightarrow> 'd document \<Rightarrow> 'd document list \<Rightarrow> CollectionAddBase
     \<Rightarrow> (error + 'x CollectionAdd) option"
where
  "CollectionAddBase_add impl doc [] this = Some (CollectionAddBase_do_add impl doc this)"
| "CollectionAddBase_add impl first [r] this =
     Some (CATCH_AND_WRAP (wrap impl)
       (case CollectionAddBase_do_add impl first this of
          Inl e \<Rightarrow> Inl e
        | Inr tmp \<Rightarrow>
            (case CollectionAdd_do_add impl r tmp of
               Inl e \<Rightarrow> Inl e
             | Inr tmp' \<Rightarrow> Inr (fst (CollectionAdd_move impl tmp')))))"
| "CollectionAddBase_add impl first (r # r' # rest) this = None"

section \<open>The operation state and the executor\<close>

text \<open>
  The header declares \<^verbatim>\<open>initialize\<close>, the \<^verbatim>\<open>do_*\<close> hooks of \<^verbatim>\<open>CollectionAdd\<close>, \<^verbatim>\<open>FindExec\<close>,
  \<^verbatim>\<open>RemoveExec\<close> and \<^verbatim>\<open>CollectionModify\<close>, and uses \<^verbatim>\<open>Executable\<close> and \<^verbatim>\<open>BindExec\<close>; their
  bodies are in files that are not part of the sources.  The definitions of this
  section follow the specification and the comments of the header instead.
\<close>

subsection \<open>Lifecycle of an operation state\<close>

text \<open>
  Modelled from the spec: the state behind \<^verbatim>\<open>Executable\<close> (\<^verbatim>\<open>mysqlx/task.h\<close>, missing).
  Section 3, invariant 5 and sections 4.3, 4.4 and 7: a state is single-shot; a facade
  that was moved from is inert, which a moved-from flag records; after a successful
  execute only \<^verbatim>\<open>bind\<close> may change the state, and then it may be executed again.
  \<open>Building\<close>: not executed yet.  \<open>Executed\<close>: executed, nothing rebound since.
  \<open>Rebound\<close>: executed, then rebound.  \<open>MovedFrom\<close>: the moved-from flag is set.
\<close>

datatype lifecycle = Building | Executed | Rebound | MovedFrom

record 'st Executable =
  op_state :: 'st
  lifecycle :: lifecycle

text \<open>
  Modelled from the spec: the move constructor of \<^verbatim>\<open>Executable\<close> (missing).  Sections 3
  and 4.3: the state is exclusively owned and transferred by move, and the previous
  value is rendered inert.  The result is the new object, which takes the state over,
  and the source, whose moved-from flag is set.  The source no longer holds the state;
  what it holds instead the specification does not say, so it is the parameter \<open>left\<close>.
\<close>

definition Executable_moved :: "'st \<Rightarrow> 'st Executable \<Rightarrow> 'st Executable \<times> 'st Executable" where
  "Executable_moved left x = (x, \<lparr>op_state = left, lifecycle = MovedFrom\<rparr>)"

text \<open>
  Modelled from the spec: the guard every mutation other than \<^verbatim>\<open>bind\<close> starts with.
  Section 7, StageMisuse: an attempt to mutate a state that has been moved from or
  already executed; section 4.4: a non-bind mutation between executes is rejected;
  section 7: a failing builder call leaves the state untouched.
\<close>

definition mutate :: "('st \<Rightarrow> error + 'st) \<Rightarrow> 'st Executable \<Rightarrow> error + 'st Executable" where
  "mutate f x =
     (if lifecycle x \<noteq> Building then Inl StageMisuse
      else case f (op_state x) of
             Inl e \<Rightarrow> Inl e
           | Inr st \<Rightarrow> Inr (x\<lparr>op_state := st\<rparr>))"

subsection \<open>AddState\<close>

text \<open>Modelled from the spec: section 3, AddState is the ordered sequence of documents
  to insert.\<close>

record 'd AddState =
  docs :: "'d document list"

text \<open>
  Modelled from the spec: \<^verbatim>\<open>CollectionAdd::initialize\<close> and \<^verbatim>\<open>CollectionAdd::do_add\<close> (bodies
  missing).  The header's comment at lines 136-140 says that \<^verbatim>\<open>do_add\<close> appends the given
  document to the list of documents to be inserted; section 4.2 says the same, and
  section 9 that the document is stored as given and decoded only by the executor.
\<close>

definition CollectionAdd_initialize ::
  "'d AddState Executable \<Rightarrow> error + 'd AddState Executable"
where
  "CollectionAdd_initialize x = Inr (x\<lparr>op_state := \<lparr>docs = []\<rparr>\<rparr>)"

definition AddState_do_add ::
  "'d document \<Rightarrow> 'd AddState Executable \<Rightarrow> error + 'd AddState Executable"
where
  "AddState_do_add doc x = mutate (\<lambda>st. Inr (st\<lparr>docs := docs st @ [doc]\<rparr>)) x"

text \<open>Modelled from the spec: the missing parts of \<^verbatim>\<open>CollectionAdd\<close> put together, for a
  move that leaves \<open>left\<close> in its source.  An exception that \<^verbatim>\<open>CATCH_AND_WRAP\<close> rethrows
  keeps its error kind (section 7).\<close>

definition spec_impl :: "'d AddState \<Rightarrow> ('d AddState Executable, 'd) CollectionAdd_impl" where
  "spec_impl left =
     \<lparr>Executable_ctor = \<lparr>op_state = \<lparr>docs = []\<rparr>, lifecycle = Building\<rparr>,
      Executable_move = Executable_moved left,
      initialize = CollectionAdd_initialize,
      do_add = AddState_do_add,
      wrap = (\<lambda>e. e)\<rparr>"

subsection \<open>FindState\<close>

text \<open>Modelled from the spec: section 3, FindState.  \<^verbatim>\<open>limit\<close> and \<^verbatim>\<open>offset\<close> take an
  \<^verbatim>\<open>unsigned\<close> (lines 390-392).  The values bound to parameters are of a type \<open>'v\<close>.\<close>

record 'v FindState =
  filter_expr :: "string option"
  sort_keys :: "string list"
  limit_rows :: "32 word option"
  offset_rows :: "32 word option"
  bindings :: "string \<rightharpoonup> 'v"

text \<open>Modelled from the spec: \<^verbatim>\<open>CollectionFind::find()\<close> and \<^verbatim>\<open>find(expr)\<close> (bodies missing)
  start from a state with at most a filter.\<close>

definition CollectionFind_find :: "string option \<Rightarrow> 'v FindState Executable" where
  "CollectionFind_find expr =
     \<lparr>op_state = \<lparr>filter_expr = expr, sort_keys = [], limit_rows = None,
                  offset_rows = None, bindings = Map.empty\<rparr>,
      lifecycle = Building\<rparr>"

text \<open>Modelled from the spec: section 4.2, an empty, blank or whitespace-only sort key is
  rejected.  Whitespace is what \<^verbatim>\<open>isspace\<close> accepts in the C locale.\<close>

definition blank :: "string \<Rightarrow> bool" where
  "blank k = list_all (\<lambda>c. c \<in> set [CHR 0x20, CHR 0x09, CHR 0x0A, CHR 0x0B, CHR 0x0C, CHR 0x0D]) k"

text \<open>Modelled from the spec: section 4.5, parameter names match
  \<^verbatim>\<open>[A-Za-z_][A-Za-z0-9_]*\<close>.  \<open>name_start\<close> is a letter or the underscore.\<close>

definition name_start :: "char \<Rightarrow> bool" where
  "name_start c = (let n = (of_char c :: nat) in (65 \<le> n \<and> n \<le> 90) \<or> (97 \<le> n \<and> n \<le> 122) \<or> n = 95)"

definition digit :: "char \<Rightarrow> bool" where
  "digit c = (let n = (of_char c :: nat) in 48 \<le> n \<and> n \<le> 57)"

fun valid_param_name :: "string \<Rightarrow> bool" where
  "valid_param_name [] = False"
| "valid_param_name (c # cs) = (name_start c \<and> list_all (\<lambda>d. name_start d \<or> digit d) cs)"

text \<open>
  Modelled from the spec: the hooks of \<^verbatim>\<open>FindExec\<close> (bodies missing) and \<^verbatim>\<open>bind\<close> of
  \<^verbatim>\<open>BindExec\<close> (missing).  Section 4.2: \<^verbatim>\<open>sort\<close> appends its key, \<^verbatim>\<open>limit\<close> and \<^verbatim>\<open>offset\<close>
  overwrite, \<^verbatim>\<open>bind\<close> inserts or overwrites in the binding table.  Section 4.4: \<^verbatim>\<open>bind\<close>
  is the one mutation allowed after an execute.
\<close>

definition FindExec_do_sort :: "string \<Rightarrow> 'v FindState Executable \<Rightarrow> error + 'v FindState Executable" where
  "FindExec_do_sort ord x =
     mutate (\<lambda>st. if blank ord then Inl InvalidArgument
                  else Inr (st\<lparr>sort_keys := sort_keys st @ [ord]\<rparr>)) x"

definition FindExec_do_limit :: "32 word \<Rightarrow> 'v FindState Executable \<Rightarrow> error + 'v FindState Executable" where
  "FindExec_do_limit rows x = mutate (\<lambda>st. Inr (st\<lparr>limit_rows := Some rows\<rparr>)) x"

definition FindExec_do_offset :: "32 word \<Rightarrow> 'v FindState Executable \<Rightarrow> error + 'v FindState Executable" where
  "FindExec_do_offset rows x = mutate (\<lambda>st. Inr (st\<lparr>offset_rows := Some rows\<rparr>)) x"

definition BindExec_bind ::
  "string \<times> 'v \<Rightarrow> 'v FindState Executable \<Rightarrow> error + 'v FindState Executable"
where
  "BindExec_bind pv x =
     (if lifecycle x = MovedFrom then Inl StageMisuse
      else if \<not> valid_param_name (fst pv) then Inl InvalidArgument
      else Inr (x\<lparr>op_state := (op_state x)\<lparr>bindings := (bindings (op_state x))(fst pv \<mapsto> snd pv)\<rparr>,
                 lifecycle := (if lifecycle x = Executed then Rebound else lifecycle x)\<rparr>))"

text \<open>One call on a Find builder, whichever stage surface it is made through.\<close>

datatype 'v find_call =
    sort_call string | limit_call "32 word" | offset_call "32 word" | bind_call string 'v

fun FindExec_call :: "'v find_call \<Rightarrow> 'v FindState Executable \<Rightarrow> error + 'v FindState Executable" where
  "FindExec_call (sort_call k) x = FindExec_do_sort k x"
| "FindExec_call (limit_call n) x = FindExec_do_limit n x"
| "FindExec_call (offset_call n) x = FindExec_do_offset n x"
| "FindExec_call (bind_call p v) x = BindExec_bind (p, v) x"

fun is_bind :: "'v find_call \<Rightarrow> bool" where
  "is_bind (bind_call p v) = True"
| "is_bind c = False"

subsection \<open>Requests and execute\<close>

text \<open>Modelled from the spec: section 6, the kind of a request.\<close>

datatype crud_kind = ADD | FIND | REMOVE | MODIFY

text \<open>Modelled from the spec: section 6, the normalized CRUD request handed to the
  protocol encoder (the update steps of Modify are left out).\<close>

record ('d, 'v) request =
  kind :: crud_kind
  collection_id :: Collection
  req_filter :: "string option"
  req_sort :: "string list"
  req_limit :: "32 word option"
  req_offset :: "32 word option"
  req_docs :: "'d document list"
  req_bindings :: "string \<rightharpoonup> 'v"

text \<open>Modelled from the spec: what the encoder is given for an Add and for a Find (section 6
  and the scenarios of section 8): the fields of the state, unchanged.\<close>

definition encode_add :: "Collection \<Rightarrow> 'd AddState \<Rightarrow> ('d, 'v) request" where
  "encode_add coll st =
     \<lparr>kind = ADD, collection_id = coll, req_filter = None, req_sort = [], req_limit = None,
      req_offset = None, req_docs = docs st, req_bindings = Map.empty\<rparr>"

definition encode_find :: "Collection \<Rightarrow> 'v FindState \<Rightarrow> ('d, 'v) request" where
  "encode_find coll st =
     \<lparr>kind = FIND, collection_id = coll, req_filter = filter_expr st, req_sort = sort_keys st,
      req_limit = limit_rows st, req_offset = offset_rows st, req_docs = [],
      req_bindings = bindings st\<rparr>"

text \<open>Modelled from the spec: section 4.4, step 1, and section 7: an Add needs a document,
  EmptyBatch otherwise.\<close>

definition validate_add :: "'d AddState \<Rightarrow> error option" where
  "validate_add st = (if docs st = [] then Some EmptyBatch else None)"

text \<open>
  Modelled from the spec: \<^verbatim>\<open>Executable::execute\<close> (missing), section 4.4.  A moved-from
  state and a state executed and not rebound since fail with StageMisuse before any wire
  I/O; otherwise the state is validated, encoded, submitted (the request goes on the
  wire) and, when the session answers with a result, marked executed.  \<open>validate\<close>,
  \<open>encode\<close> and \<open>submit\<close> are the checks of the operation's kind, the protocol encoder and
  the session; the wire is the list of the requests sent so far.
\<close>

definition Executable_execute ::
  "('st \<Rightarrow> error option) \<Rightarrow> ('st \<Rightarrow> 'rq) \<Rightarrow> ('rq \<Rightarrow> error + 'res) \<Rightarrow> 'st Executable \<Rightarrow> 'rq list
     \<Rightarrow> (error + 'res) \<times> 'st Executable \<times> 'rq list"
where
  "Executable_execute validate encode submit x wire =
     (if lifecycle x = MovedFrom \<or> lifecycle x = Executed then (Inl StageMisuse, x, wire)
      else case validate (op_state x) of
             Some e \<Rightarrow> (Inl e, x, wire)
           | None \<Rightarrow>
               (case submit (encode (op_state x)) of
                  Inl e \<Rightarrow> (Inl e, x, wire @ [encode (op_state x)])
                | Inr res \<Rightarrow> (Inr res, x\<lparr>lifecycle := Executed\<rparr>, wire @ [encode (op_state x)])))"

text \<open>\<^verbatim>\<open>execute()\<close> called on a \<^verbatim>\<open>CollectionAdd\<close>, which inherits it from \<^verbatim>\<open>Executable\<close>
  (line 196).\<close>

definition CollectionAdd_execute ::
  "(('d, 'v) request \<Rightarrow> error + 'res) \<Rightarrow> 'd AddState Executable CollectionAdd \<Rightarrow> ('d, 'v) request list
     \<Rightarrow> (error + 'res) \<times> 'd AddState Executable CollectionAdd \<times> ('d, 'v) request list"
where
  "CollectionAdd_execute submit this wire =
     (case Executable_execute validate_add (encode_add (m_coll this)) submit (executable this) wire of
        (r, x, wire') \<Rightarrow> (r, this\<lparr>executable := x\<rparr>, wire'))"

subsection \<open>The Add builders a caller can get hold of\<close>

text \<open>
  The \<^verbatim>\<open>CollectionAdd\<close> objects that exist in a program that starts from the
  \<^verbatim>\<open>CollectionAddBase\<close> \<open>base\<close>.  The constructors of \<^verbatim>\<open>CollectionAdd\<close> are private but for the
  move constructor, so an object is made by \<^verbatim>\<open>add\<close> on the base, changed by \<^verbatim>\<open>add\<close> and
  \<^verbatim>\<open>execute\<close>, or made by a move, which also leaves its source behind, holding whatever
  a move leaves there.
\<close>

inductive reachable_add ::
  "CollectionAddBase \<Rightarrow> 'd AddState Executable CollectionAdd \<Rightarrow> bool"
  for base :: CollectionAddBase
where
  first_add:
    "CollectionAddBase_add (spec_impl left) d ds base = Some (Inr a) \<Longrightarrow> reachable_add base a"
| next_add:
    "reachable_add base a \<Longrightarrow> CollectionAdd_add (spec_impl left) d ds a = Some (Inr a') \<Longrightarrow>
       reachable_add base a'"
| move_new:
    "reachable_add base a \<Longrightarrow> reachable_add base (fst (CollectionAdd_move (spec_impl left) a))"
| move_source:
    "reachable_add base a \<Longrightarrow> reachable_add base (snd (CollectionAdd_move (spec_impl left) a))"
| executed:
    "reachable_add base a \<Longrightarrow>
       CollectionAdd_execute (submit :: ('d, unit) request \<Rightarrow> error + unit) a wire = (r, a', wire') \<Longrightarrow>
       reachable_add base a'"

section \<open>Properties of the surface\<close>

lemmas member_defs =
  lookup_def Executable_members_def BindExec_members_def Offset_members_def
  CollectionModifyInterface_members_def

lemmas typedef_defs =
  CollectionRemoveLimit_def CollectionRemoveOrder_def CollectionFindLimit_def
  CollectionFindSort_def CollectionModifyLimit_def CollectionModifySort_def

subsection \<open>A representable chain follows the stage order\<close>

lemma stage_order_Cons:
  "stage_order (m # ms) = ((\<forall>y\<in>set ms. stage_before m y) \<and> stage_order ms)"
  by (simp add: stage_order_def)

lemma chain_Result: "chain Result ms = Some c \<Longrightarrow> ms = []"
  by (cases ms) (simp_all add: member_defs)

lemma chain_BindExec:
  "chain BindExec ms = Some c \<Longrightarrow> stage_order ms \<and> set ms \<subseteq> {bind_m, execute_m}"
proof (induction ms arbitrary: c)
  case Nil
  then show ?case by (simp add: stage_order_def)
next
  case (Cons m ms)
  then show ?case
    by (auto simp: member_defs stage_order_def stage_before_def split: if_splits
        dest!: chain_Result)
qed

lemma chain_Offset:
  "chain Offset ms = Some c \<Longrightarrow> stage_order ms \<and> set ms \<subseteq> {offset_m, bind_m, execute_m}"
  by (cases ms)
     (auto simp: member_defs stage_order_def stage_before_def split: if_splits
       dest!: chain_Result chain_BindExec)

lemma chain_FindLimit:
  "chain (Limit Offset BindExec) ms = Some c \<Longrightarrow>
     stage_order ms \<and> set ms \<subseteq> {limit_m, offset_m, bind_m, execute_m}"
  by (cases ms)
     (auto simp: member_defs stage_order_def stage_before_def split: if_splits
       dest!: chain_Result chain_BindExec chain_Offset)

lemma chain_FindSort:
  "chain (CollectionSort (Limit Offset BindExec) (Limit Offset BindExec)) ms = Some c \<Longrightarrow>
     stage_order ms \<and> set ms \<subseteq> {sort_m, limit_m, offset_m, bind_m, execute_m}"
  by (cases ms)
     (auto simp: member_defs stage_order_def stage_before_def split: if_splits
       dest!: chain_Result chain_BindExec chain_Offset chain_FindLimit)

lemma chain_RemoveLimit:
  "chain (Limit BindExec BindExec) ms = Some c \<Longrightarrow>
     stage_order ms \<and> set ms \<subseteq> {limit_m, bind_m, execute_m}"
  by (cases ms)
     (auto simp: member_defs stage_order_def stage_before_def split: if_splits
       dest!: chain_Result chain_BindExec)

lemma chain_RemoveOrder:
  "chain (CollectionSort (Limit BindExec BindExec) (Limit BindExec BindExec)) ms = Some c \<Longrightarrow>
     stage_order ms \<and> set ms \<subseteq> {sort_m, limit_m, bind_m, execute_m}"
  by (cases ms)
     (auto simp: member_defs stage_order_def stage_before_def split: if_splits
       dest!: chain_Result chain_BindExec chain_RemoveLimit)

lemma chain_ModifyOp:
  "chain CollectionModifyOp ms = Some c \<Longrightarrow> stage_order ms \<and> offset_m \<notin> set ms"
proof (induction ms arbitrary: c)
  case Nil
  then show ?case by (simp add: stage_order_def)
next
  case (Cons m ms)
  then show ?case
    by (auto simp: member_defs stage_order_def stage_before_def split: if_splits
        dest!: chain_Result chain_BindExec chain_RemoveLimit)
qed

lemma chain_Modify:
  "chain CollectionModify ms = Some c \<Longrightarrow> stage_order ms \<and> offset_m \<notin> set ms"
  by (cases ms)
     (auto simp: member_defs stage_order_def stage_before_def split: if_splits
       dest!: chain_ModifyOp)

text \<open>
  C3.  Every chain of calls that compiles on what \<^verbatim>\<open>find\<close> returns (a
  \<^verbatim>\<open>CollectionFindSort&\<close>) consists of \<^verbatim>\<open>sort\<close>, \<^verbatim>\<open>limit\<close>, \<^verbatim>\<open>offset\<close>, \<^verbatim>\<open>bind\<close> and \<^verbatim>\<open>execute\<close> calls
  in this stage order; \<^verbatim>\<open>limit\<close> returns the Offset stage and \<^verbatim>\<open>offset\<close> the Bind/Execute
  stage.  Every chain that compiles on what \<^verbatim>\<open>remove\<close> returns (a \<^verbatim>\<open>CollectionRemoveOrder&\<close>)
  or on what \<^verbatim>\<open>modify\<close> returns (a \<^verbatim>\<open>CollectionModify\<close>) is in stage order too and has no
  \<^verbatim>\<open>offset\<close> call.  So a chain that breaks the order does not compile.
\<close>

theorem chains_follow_stage_order:
  "(chain CollectionFindSort ms = Some c \<longrightarrow>
      stage_order ms \<and> set ms \<subseteq> {sort_m, limit_m, offset_m, bind_m, execute_m})
   \<and> lookup CollectionFindSort limit_m = Some Offset
   \<and> lookup CollectionFindLimit limit_m = Some Offset
   \<and> lookup Offset offset_m = Some BindExec
   \<and> (chain CollectionRemoveOrder ms = Some c \<longrightarrow>
        stage_order ms \<and> set ms \<subseteq> {sort_m, limit_m, bind_m, execute_m})
   \<and> (chain CollectionModify ms = Some c \<longrightarrow> stage_order ms \<and> offset_m \<notin> set ms)"
proof -
  have find: "chain CollectionFindSort ms = Some c \<longrightarrow>
      stage_order ms \<and> set ms \<subseteq> {sort_m, limit_m, offset_m, bind_m, execute_m}"
    unfolding typedef_defs using chain_FindSort [of ms c] by blast
  have remove: "chain CollectionRemoveOrder ms = Some c \<longrightarrow>
      stage_order ms \<and> set ms \<subseteq> {sort_m, limit_m, bind_m, execute_m}"
    unfolding typedef_defs using chain_RemoveOrder [of ms c] by blast
  have modify: "chain CollectionModify ms = Some c \<longrightarrow> stage_order ms \<and> offset_m \<notin> set ms"
    using chain_Modify [of ms c] by blast
  have types: "lookup CollectionFindSort limit_m = Some Offset"
    "lookup CollectionFindLimit limit_m = Some Offset" "lookup Offset offset_m = Some BindExec"
    by (simp_all add: typedef_defs member_defs)
  from find remove modify types show ?thesis by blast
qed

theorem chains_follow_stage_order_witness:
  "chain CollectionFindSort [sort_m, limit_m, offset_m, bind_m, execute_m] = Some Result
   \<and> stage_order [sort_m, limit_m, offset_m, bind_m, execute_m]
   \<and> chain CollectionRemoveOrder [sort_m, limit_m, bind_m, execute_m] = Some Result
   \<and> stage_order [sort_m, limit_m, bind_m, execute_m]
   \<and> chain CollectionModify [set_m, unset_m, sort_m, limit_m, execute_m] = Some Result
   \<and> stage_order [set_m, unset_m, sort_m, limit_m, execute_m]
   \<and> offset_m \<notin> set [set_m, unset_m, sort_m, limit_m, execute_m]"
proof -
  have f: "chain CollectionFindSort [sort_m, limit_m, offset_m, bind_m, execute_m] = Some Result"
    by (simp add: typedef_defs member_defs)
  have r: "chain CollectionRemoveOrder [sort_m, limit_m, bind_m, execute_m] = Some Result"
    by (simp add: typedef_defs member_defs)
  have m: "chain CollectionModify [set_m, unset_m, sort_m, limit_m, execute_m] = Some Result"
    by (simp add: member_defs)
  from f r m
    chains_follow_stage_order [of "[sort_m, limit_m, offset_m, bind_m, execute_m]" Result]
    chains_follow_stage_order [of "[sort_m, limit_m, bind_m, execute_m]" Result]
    chains_follow_stage_order [of "[set_m, unset_m, sort_m, limit_m, execute_m]" Result]
  show ?thesis by blast
qed

subsection \<open>Which chains are representable\<close>

lemma stage_rank_le: "stage_rank m \<le> 5"
  by (cases m) simp_all

lemma stage_order_execute: "stage_order (execute_m # ms) \<Longrightarrow> ms = []"
proof (cases ms)
  case Nil
  then show ?thesis by simp
next
  case (Cons a list)
  assume "stage_order (execute_m # ms)"
  with Cons have "stage_before execute_m a" by (simp add: stage_order_Cons)
  with stage_rank_le [of a] show ?thesis by (simp add: stage_before_def)
qed

lemma ok_BindExec:
  "stage_order ms \<Longrightarrow> set ms \<subseteq> {bind_m, execute_m} \<Longrightarrow> chain BindExec ms \<noteq> None"
proof (induction ms)
  case Nil
  then show ?case by simp
next
  case (Cons m ms)
  from Cons.prems consider "m = bind_m" | "m = execute_m" by auto
  then show ?case
  proof cases
    case 1
    with Cons show ?thesis by (simp add: member_defs stage_order_Cons)
  next
    case 2
    with Cons.prems have "ms = []" by (auto dest: stage_order_execute)
    with 2 show ?thesis by (simp add: member_defs)
  qed
qed

lemma tail_late:
  assumes "\<forall>y\<in>set ms. stage_before m y" and "m \<in> {offset_m, bind_m}"
  shows "set ms \<subseteq> {bind_m, execute_m}"
proof
  fix y assume "y \<in> set ms"
  with assms have "4 \<le> stage_rank y" by (auto simp: stage_before_def)
  then show "y \<in> {bind_m, execute_m}" by (cases y) auto
qed

lemma ok_Offset:
  "stage_order ms \<Longrightarrow> set ms \<subseteq> {offset_m, bind_m, execute_m} \<Longrightarrow> chain Offset ms \<noteq> None"
proof (cases ms)
  case Nil
  then show ?thesis by simp
next
  case (Cons m ms')
  assume a: "stage_order ms" "set ms \<subseteq> {offset_m, bind_m, execute_m}"
  with Cons have o: "stage_order ms'" and b: "\<forall>y\<in>set ms'. stage_before m y"
    by (simp_all add: stage_order_Cons)
  from a Cons consider "m = offset_m \<or> m = bind_m" | "m = execute_m" by auto
  then show ?thesis
  proof cases
    case 1
    with b have "set ms' \<subseteq> {bind_m, execute_m}" by (intro tail_late [of ms' m]) auto
    with o 1 Cons show ?thesis using ok_BindExec [of ms'] by (auto simp: member_defs)
  next
    case 2
    with a Cons have "ms' = []" by (auto dest: stage_order_execute)
    with 2 Cons show ?thesis by (simp add: member_defs)
  qed
qed

lemma tail_after_limit:
  assumes "\<forall>y\<in>set ms. stage_before limit_m y"
  shows "set ms \<subseteq> {offset_m, bind_m, execute_m}"
proof
  fix y assume "y \<in> set ms"
  with assms have "3 \<le> stage_rank y" by (auto simp: stage_before_def)
  then show "y \<in> {offset_m, bind_m, execute_m}" by (cases y) auto
qed

lemma tail_after_sort:
  assumes "\<forall>y\<in>set ms. stage_before sort_m y"
  shows "set ms \<subseteq> {limit_m, offset_m, bind_m, execute_m}"
proof
  fix y assume "y \<in> set ms"
  with assms have "2 \<le> stage_rank y" by (auto simp: stage_before_def)
  then show "y \<in> {limit_m, offset_m, bind_m, execute_m}" by (cases y) auto
qed

lemma ok_FindLimit:
  assumes "stage_order ms" "set ms \<subseteq> {limit_m, offset_m, bind_m, execute_m}"
    "offset_follows_limit ms"
  shows "chain (Limit Offset BindExec) ms \<noteq> None"
proof (cases ms)
  case Nil
  then show ?thesis by simp
next
  case (Cons m ms')
  with assms have o: "stage_order ms'" and b: "\<forall>y\<in>set ms'. stage_before m y"
    by (simp_all add: stage_order_Cons)
  from assms Cons consider "m = limit_m" | "m = bind_m" | "m = execute_m" by auto
  then show ?thesis
  proof cases
    case 1
    with b have "set ms' \<subseteq> {offset_m, bind_m, execute_m}" by (simp add: tail_after_limit)
    with o 1 Cons show ?thesis by (simp add: member_defs ok_Offset)
  next
    case 2
    with b have "set ms' \<subseteq> {bind_m, execute_m}" by (intro tail_late [of ms' m]) auto
    with o 2 Cons show ?thesis by (simp add: member_defs ok_BindExec)
  next
    case 3
    with assms Cons have "ms' = []" by (auto dest: stage_order_execute)
    with 3 Cons show ?thesis by (simp add: member_defs)
  qed
qed

lemma ok_FindSort:
  assumes "stage_order ms" "set ms \<subseteq> {sort_m, limit_m, offset_m, bind_m, execute_m}"
    "offset_follows_limit ms"
  shows "chain (CollectionSort (Limit Offset BindExec) (Limit Offset BindExec)) ms \<noteq> None"
proof (cases ms)
  case Nil
  then show ?thesis by simp
next
  case (Cons m ms')
  with assms have o: "stage_order ms'" and b: "\<forall>y\<in>set ms'. stage_before m y"
    by (simp_all add: stage_order_Cons)
  from assms Cons consider "m = sort_m" | "m = limit_m" | "m = bind_m" | "m = execute_m" by auto
  then show ?thesis
  proof cases
    case 1
    with b have "set ms' \<subseteq> {limit_m, offset_m, bind_m, execute_m}" by (simp add: tail_after_sort)
    moreover from assms(3) 1 Cons have "offset_follows_limit ms'" by simp
    ultimately show ?thesis using o 1 Cons by (simp add: member_defs ok_FindLimit)
  next
    case 2
    with b have "set ms' \<subseteq> {offset_m, bind_m, execute_m}" by (simp add: tail_after_limit)
    with o 2 Cons show ?thesis by (simp add: member_defs ok_Offset)
  next
    case 3
    with b have "set ms' \<subseteq> {bind_m, execute_m}" by (intro tail_late [of ms' m]) auto
    with o 3 Cons show ?thesis by (simp add: member_defs ok_BindExec)
  next
    case 4
    with assms Cons have "ms' = []" by (auto dest: stage_order_execute)
    with 4 Cons show ?thesis by (simp add: member_defs)
  qed
qed

lemma ok_RemoveLimit:
  assumes "stage_order ms" "set ms \<subseteq> {limit_m, bind_m, execute_m}"
  shows "chain (Limit BindExec BindExec) ms \<noteq> None"
proof (cases ms)
  case Nil
  then show ?thesis by simp
next
  case (Cons m ms')
  with assms have o: "stage_order ms'" and b: "\<forall>y\<in>set ms'. stage_before m y"
    and s: "set ms' \<subseteq> {limit_m, bind_m, execute_m}"
    by (simp_all add: stage_order_Cons)
  from assms Cons consider "m = limit_m" | "m = bind_m" | "m = execute_m" by auto
  then show ?thesis
  proof cases
    case 1
    with b s have "set ms' \<subseteq> {bind_m, execute_m}" using tail_after_limit [of ms'] by auto
    with o 1 Cons show ?thesis by (simp add: member_defs ok_BindExec)
  next
    case 2
    with b have "set ms' \<subseteq> {bind_m, execute_m}" by (intro tail_late [of ms' m]) auto
    with o 2 Cons show ?thesis by (simp add: member_defs ok_BindExec)
  next
    case 3
    with assms Cons have "ms' = []" by (auto dest: stage_order_execute)
    with 3 Cons show ?thesis by (simp add: member_defs)
  qed
qed

lemma ok_RemoveOrder:
  assumes "stage_order ms" "set ms \<subseteq> {sort_m, limit_m, bind_m, execute_m}"
  shows "chain (CollectionSort (Limit BindExec BindExec) (Limit BindExec BindExec)) ms \<noteq> None"
proof (cases ms)
  case Nil
  then show ?thesis by simp
next
  case (Cons m ms')
  with assms have o: "stage_order ms'" and b: "\<forall>y\<in>set ms'. stage_before m y"
    and s: "set ms' \<subseteq> {sort_m, limit_m, bind_m, execute_m}"
    by (simp_all add: stage_order_Cons)
  from assms Cons consider "m = sort_m" | "m = limit_m" | "m = bind_m" | "m = execute_m" by auto
  then show ?thesis
  proof cases
    case 1
    with b s have "set ms' \<subseteq> {limit_m, bind_m, execute_m}" using tail_after_sort [of ms'] by auto
    with o 1 Cons show ?thesis by (simp add: member_defs ok_RemoveLimit)
  next
    case 2
    with b s have "set ms' \<subseteq> {bind_m, execute_m}" using tail_after_limit [of ms'] by auto
    with o 2 Cons show ?thesis by (simp add: member_defs ok_BindExec)
  next
    case 3
    with b have "set ms' \<subseteq> {bind_m, execute_m}" by (intro tail_late [of ms' m]) auto
    with o 3 Cons show ?thesis by (simp add: member_defs ok_BindExec)
  next
    case 4
    with assms Cons have "ms' = []" by (auto dest: stage_order_execute)
    with 4 Cons show ?thesis by (simp add: member_defs)
  qed
qed

lemma ok_ModifyOp:
  assumes "stage_order ms" "set ms \<subseteq> {sort_m, limit_m, bind_m, execute_m}"
  shows "chain CollectionModifyOp ms \<noteq> None"
proof (cases ms)
  case Nil
  then show ?thesis by simp
next
  case (Cons m ms')
  have "chain CollectionModifyOp (m # ms') =
      chain (CollectionSort (Limit BindExec BindExec) (Limit BindExec BindExec)) (m # ms')"
    using assms(2) Cons by (auto simp: member_defs)
  with ok_RemoveOrder [OF assms] Cons show ?thesis by simp
qed

lemma follows_BindExec: "chain BindExec ms = Some c \<Longrightarrow> offset_follows_limit ms"
proof (induction ms arbitrary: c)
  case Nil
  then show ?case by simp
next
  case (Cons m ms)
  then show ?case by (cases ms) (auto simp: member_defs split: if_splits)
qed

lemma follows_Offset: "chain Offset ms = Some c \<Longrightarrow> offset_follows_limit (limit_m # ms)"
  by (cases ms) (auto simp: member_defs split: if_splits dest: follows_BindExec dest!: chain_Result)

lemma follows_FindLimit: "chain (Limit Offset BindExec) ms = Some c \<Longrightarrow> offset_follows_limit ms"
  by (cases ms) (auto simp: member_defs split: if_splits dest: follows_BindExec follows_Offset dest!: chain_Result)

lemma follows_FindSort:
  "chain (CollectionSort (Limit Offset BindExec) (Limit Offset BindExec)) ms = Some c \<Longrightarrow>
     offset_follows_limit ms"
  by (cases ms)
     (auto simp: member_defs split: if_splits
       dest: follows_BindExec follows_Offset follows_FindLimit dest!: chain_Result)

lemma update_call_rank: "m \<in> update_calls \<Longrightarrow> stage_rank m = 0"
  by (auto simp: update_calls_def)

lemma update_call_first: "m \<in> update_calls \<Longrightarrow> stage_before m y"
  by (auto simp: stage_before_def update_call_rank)

lemma update_call_lookup:
  "m \<in> update_calls \<Longrightarrow> lookup CollectionModifyOp m = Some CollectionModifyOp"
  "m \<in> update_calls \<Longrightarrow> lookup CollectionModify m = Some CollectionModifyOp"
  by (auto simp: update_calls_def member_defs)

lemma stage_call_lookup:
  "m \<in> {sort_m, limit_m, offset_m, bind_m, execute_m} \<Longrightarrow> lookup CollectionModify m = None"
  by (auto simp: member_defs)

lemma ok_ModifyOp_updates:
  "stage_order ms \<Longrightarrow> set ms \<subseteq> update_calls \<union> {sort_m, limit_m, bind_m, execute_m} \<Longrightarrow>
     chain CollectionModifyOp ms \<noteq> None"
proof (induction ms)
  case Nil
  then show ?case by simp
next
  case (Cons m ms)
  show ?case
  proof (cases "m \<in> update_calls")
    case True
    with Cons show ?thesis by (simp add: update_call_lookup stage_order_Cons)
  next
    case False
    with Cons.prems(2) have m: "m \<in> {sort_m, limit_m, bind_m, execute_m}" by auto
    have "y \<in> {sort_m, limit_m, bind_m, execute_m}" if "y \<in> set ms" for y
    proof -
      from that Cons.prems(1) have "stage_before m y" by (simp add: stage_order_Cons)
      with m have "y \<notin> update_calls"
        by (auto simp: stage_before_def dest: update_call_rank)
      with that Cons.prems(2) show ?thesis by auto
    qed
    with m have "set (m # ms) \<subseteq> {sort_m, limit_m, bind_m, execute_m}" by auto
    with Cons.prems(1) show ?thesis by (rule ok_ModifyOp)
  qed
qed

lemma chain_Modify_iff:
  assumes "set ms \<subseteq> update_calls \<union> {sort_m, limit_m, bind_m, execute_m}"
  shows "(chain CollectionModify ms \<noteq> None) =
     (stage_order ms \<and> (case ms of [] \<Rightarrow> True | m # ms' \<Rightarrow> m \<in> update_calls))"
proof (cases ms)
  case Nil
  then show ?thesis by (simp add: stage_order_def)
next
  case (Cons m ms')
  show ?thesis
  proof (cases "m \<in> update_calls")
    case True
    have "(chain CollectionModifyOp ms' \<noteq> None) = stage_order ms'"
      using assms Cons ok_ModifyOp_updates [of ms'] chain_ModifyOp [of ms'] by auto
    with True Cons show ?thesis
      by (simp add: update_call_lookup stage_order_Cons update_call_first)
  next
    case False
    with assms Cons have "m \<in> {sort_m, limit_m, offset_m, bind_m, execute_m}" by auto
    then have "lookup CollectionModify m = None" by (rule stage_call_lookup)
    with False Cons show ?thesis by simp
  qed
qed

text \<open>
  C9, as the claim states it, fails twice.  \<^verbatim>\<open>find().offset(k)\<close> skips forward over \<^verbatim>\<open>sort\<close>
  and \<^verbatim>\<open>limit\<close> and reorders nothing, yet \<^verbatim>\<open>CollectionFindSort\<close> has no member \<^verbatim>\<open>offset\<close>:
  \<^verbatim>\<open>Limit<Offset,BindExec>\<close> derives from \<^verbatim>\<open>BindExec\<close>, not from \<^verbatim>\<open>Offset\<close>.  And
  \<^verbatim>\<open>modify().limit(n)\<close> reorders nothing either, yet \<^verbatim>\<open>limit\<close> is not accessible on the
  \<^verbatim>\<open>CollectionModify\<close> that \<^verbatim>\<open>modify()\<close> returns, whose base \<^verbatim>\<open>CollectionModifyOp\<close> is private.
\<close>

theorem offset_is_not_skipped_to:
  "stage_order [offset_m] \<and> chain CollectionFindSort [offset_m] = None
   \<and> stage_order [sort_m, offset_m] \<and> chain CollectionFindSort [sort_m, offset_m] = None
   \<and> stage_order [limit_m] \<and> chain CollectionModify [limit_m] = None"
  by (simp add: stage_order_def stage_before_def typedef_defs member_defs)

text \<open>
  C9, amended.  \<^verbatim>\<open>sort\<close> is skippable: each surface that exposes \<^verbatim>\<open>sort\<close>
  (\<^verbatim>\<open>CollectionFindSort\<close>, \<^verbatim>\<open>CollectionRemoveOrder\<close>, and \<^verbatim>\<open>CollectionModifyOp\<close>, which is what
  an update call of Modify returns) inherits the surface that \<^verbatim>\<open>sort\<close> returns and so
  exposes \<^verbatim>\<open>limit\<close>, \<^verbatim>\<open>bind\<close> and \<^verbatim>\<open>execute\<close> as well, which may be called without any \<^verbatim>\<open>sort\<close>
  before them.  \<^verbatim>\<open>offset\<close> is exposed only by what \<^verbatim>\<open>limit\<close> returns.  A chain of stage calls
  compiles on a Find builder exactly when it is in forward stage order and each \<^verbatim>\<open>offset\<close>
  directly follows a \<^verbatim>\<open>limit\<close>; a chain of stage calls without \<^verbatim>\<open>offset\<close> compiles on a Remove
  builder, and on what an update call of Modify returns, exactly when it is in forward
  stage order.  What \<^verbatim>\<open>modify()\<close> itself returns (\<^verbatim>\<open>CollectionModify\<close>) exposes the update calls
  only: a chain of update and stage calls without \<^verbatim>\<open>offset\<close> compiles on it exactly when it
  is in stage order and, unless it is empty, starts with an update call.
\<close>

theorem stages_skippable_forward:
  "(\<forall>c\<in>{CollectionFindSort, CollectionRemoveOrder, CollectionModifyOp}.
      lookup c sort_m \<noteq> None \<and> lookup c limit_m \<noteq> None
      \<and> lookup c bind_m = Some BindExec \<and> lookup c execute_m = Some Result)
   \<and> (set ms \<subseteq> {sort_m, limit_m, offset_m, bind_m, execute_m} \<longrightarrow>
        (chain CollectionFindSort ms \<noteq> None) = (stage_order ms \<and> offset_follows_limit ms))
   \<and> (set ms \<subseteq> {sort_m, limit_m, bind_m, execute_m} \<longrightarrow>
        (chain CollectionRemoveOrder ms \<noteq> None) = stage_order ms
        \<and> (chain CollectionModifyOp ms \<noteq> None) = stage_order ms)
   \<and> set (map fst (members CollectionModify)) = update_calls
   \<and> (\<forall>u\<in>update_calls. lookup CollectionModify u = Some CollectionModifyOp)
   \<and> (set ms \<subseteq> update_calls \<union> {sort_m, limit_m, bind_m, execute_m} \<longrightarrow>
        (chain CollectionModifyOp ms \<noteq> None) = stage_order ms
        \<and> (chain CollectionModify ms \<noteq> None) =
            (stage_order ms \<and> (case ms of [] \<Rightarrow> True | m # ms' \<Rightarrow> m \<in> update_calls)))"
proof -
  have surfaces: "\<forall>c\<in>{CollectionFindSort, CollectionRemoveOrder, CollectionModifyOp}.
      lookup c sort_m \<noteq> None \<and> lookup c limit_m \<noteq> None
      \<and> lookup c bind_m = Some BindExec \<and> lookup c execute_m = Some Result"
    by (simp add: typedef_defs member_defs)
  have find: "(chain CollectionFindSort ms \<noteq> None) = (stage_order ms \<and> offset_follows_limit ms)"
    if "set ms \<subseteq> {sort_m, limit_m, offset_m, bind_m, execute_m}"
    unfolding typedef_defs
    using that ok_FindSort [of ms] chain_FindSort [of ms] follows_FindSort [of ms] by blast
  have remove: "(chain CollectionRemoveOrder ms \<noteq> None) = stage_order ms"
    if "set ms \<subseteq> {sort_m, limit_m, bind_m, execute_m}"
    unfolding typedef_defs
    using that ok_RemoveOrder [of ms] chain_RemoveOrder [of ms] by blast
  have modify: "(chain CollectionModifyOp ms \<noteq> None) = stage_order ms"
    if "set ms \<subseteq> {sort_m, limit_m, bind_m, execute_m}"
    using that ok_ModifyOp [of ms] chain_ModifyOp [of ms] by blast
  have entry: "set (map fst (members CollectionModify)) = update_calls"
    by (simp add: CollectionModifyInterface_members_def update_calls_def)
  have updates: "\<forall>u\<in>update_calls. lookup CollectionModify u = Some CollectionModifyOp"
    by (simp add: update_call_lookup)
  have op_full: "(chain CollectionModifyOp ms \<noteq> None) = stage_order ms"
    if "set ms \<subseteq> update_calls \<union> {sort_m, limit_m, bind_m, execute_m}"
    using that ok_ModifyOp_updates [of ms] chain_ModifyOp [of ms] by blast
  have entry_full: "(chain CollectionModify ms \<noteq> None) =
      (stage_order ms \<and> (case ms of [] \<Rightarrow> True | m # ms' \<Rightarrow> m \<in> update_calls))"
    if "set ms \<subseteq> update_calls \<union> {sort_m, limit_m, bind_m, execute_m}"
    using that by (rule chain_Modify_iff)
  show ?thesis
    using surfaces updates
    by (intro conjI impI)
       (assumption | simp only: find remove modify entry op_full entry_full)+
qed

theorem stages_skippable_forward_witness:
  "set [limit_m, offset_m, execute_m] \<subseteq> {sort_m, limit_m, offset_m, bind_m, execute_m}
   \<and> chain CollectionFindSort [limit_m, offset_m, execute_m] \<noteq> None
   \<and> stage_order [limit_m, offset_m, execute_m] \<and> offset_follows_limit [limit_m, offset_m, execute_m]
   \<and> set [limit_m, bind_m] \<subseteq> {sort_m, limit_m, bind_m, execute_m}
   \<and> chain CollectionRemoveOrder [limit_m, bind_m] \<noteq> None
   \<and> chain CollectionModifyOp [limit_m, bind_m] \<noteq> None
   \<and> stage_order [limit_m, bind_m]
   \<and> CollectionFindSort \<in> {CollectionFindSort, CollectionRemoveOrder, CollectionModifyOp}
   \<and> lookup CollectionFindSort limit_m \<noteq> None
   \<and> set [set_m, limit_m, execute_m] \<subseteq> update_calls \<union> {sort_m, limit_m, bind_m, execute_m}
   \<and> chain CollectionModify [set_m, limit_m, execute_m] \<noteq> None
   \<and> stage_order [set_m, limit_m, execute_m]
   \<and> set_m \<in> update_calls
   \<and> lookup CollectionModify set_m = Some CollectionModifyOp"
proof -
  have f: "chain CollectionFindSort [limit_m, offset_m, execute_m] \<noteq> None"
    by (simp add: typedef_defs member_defs)
  have r: "chain CollectionRemoveOrder [limit_m, bind_m] \<noteq> None"
    by (simp add: typedef_defs member_defs)
  have m: "chain CollectionModify [set_m, limit_m, execute_m] \<noteq> None"
    by (simp add: member_defs)
  have s: "set [limit_m, offset_m, execute_m] \<subseteq> {sort_m, limit_m, offset_m, bind_m, execute_m}"
    "set [limit_m, bind_m] \<subseteq> {sort_m, limit_m, bind_m, execute_m}"
    "set [set_m, limit_m, execute_m] \<subseteq> update_calls \<union> {sort_m, limit_m, bind_m, execute_m}"
    "set_m \<in> update_calls"
    by (simp_all add: update_calls_def)
  note t1 = stages_skippable_forward [of "[limit_m, offset_m, execute_m]"]
  note t2 = stages_skippable_forward [of "[limit_m, bind_m]"]
  note t3 = stages_skippable_forward [of "[set_m, limit_m, execute_m]"]
  from f t1 [THEN conjunct2, THEN conjunct1, THEN mp, OF s(1)]
  have a: "stage_order [limit_m, offset_m, execute_m]"
    "offset_follows_limit [limit_m, offset_m, execute_m]"
    by simp_all
  from r t2 [THEN conjunct2, THEN conjunct2, THEN conjunct1, THEN mp, OF s(2)]
  have b: "stage_order [limit_m, bind_m]" "chain CollectionModifyOp [limit_m, bind_m] \<noteq> None"
    by simp_all
  from t1 [THEN conjunct1]
  have c: "lookup CollectionFindSort limit_m \<noteq> None"
    by simp
  from m t3 [THEN conjunct2, THEN conjunct2, THEN conjunct2, THEN conjunct2, THEN conjunct2,
      THEN mp, OF s(3), THEN conjunct2]
  have d: "stage_order [set_m, limit_m, execute_m]"
    by simp
  from t3 [THEN conjunct2, THEN conjunct2, THEN conjunct2, THEN conjunct2, THEN conjunct1] s(4)
  have e: "lookup CollectionModify set_m = Some CollectionModifyOp"
    by simp
  from f r m s a b c d e show ?thesis by simp
qed

section \<open>Properties of \<^verbatim>\<open>sort\<close>\<close>

lemma sort_text_sequence:
  "CollectionSort_sort h (Text k) (map Text ks) s =
     (case in_sequence h (k # ks) s of Inl e \<Rightarrow> Inl (Raised e) | Inr s' \<Rightarrow> Inr s')"
  by (induction ks arbitrary: k s) (auto split: sum.splits)

lemma sort_loop_ret:
  "sort_loop h c els ret s = Inr (r, s') \<Longrightarrow> (r = None) = (els = [] \<and> ret = None)"
  by (induction els arbitrary: ret s) (auto split: sum.splits)

lemma sort_iterable_null: "(sort_iterable h c els s = Inl NullDereference) = (els = [])"
  by (cases "sort_loop h c els None s")
     (auto simp: sort_iterable_def split: option.splits dest: sort_loop_ret)

lemma sort_loop_whole:
  "sort_loop h c els ret s =
     (case in_sequence h (replicate (length els) c) s of
        Inl e \<Rightarrow> Inl e
      | Inr s' \<Rightarrow> Inr (if els = [] then ret else Some s', s'))"
  by (induction els arbitrary: ret s) (auto split: sum.splits)

lemma FindExec_do_sort_eq:
  "FindExec_do_sort k x =
     (if lifecycle x \<noteq> Building then Inl StageMisuse
      else if blank k then Inl InvalidArgument
      else Inr (x\<lparr>op_state := (op_state x)\<lparr>sort_keys := sort_keys (op_state x) @ [k]\<rparr>\<rparr>))"
  by (simp add: FindExec_do_sort_def mutate_def)

lemma do_sort_sequence:
  "lifecycle x = Building \<Longrightarrow> \<forall>k\<in>set ks. \<not> blank k \<Longrightarrow>
     in_sequence FindExec_do_sort ks x =
       Inr (x\<lparr>op_state := (op_state x)\<lparr>sort_keys := sort_keys (op_state x) @ ks\<rparr>\<rparr>)"
  by (induction ks arbitrary: x) (simp_all add: FindExec_do_sort_eq)

text \<open>
  C4.  The claim asks the iterable overload for one append per element.  The loop body
  at line 307 passes the iterable itself: for an iterable of the keys \<open>a\<close> and \<open>b\<close> whose
  conversion to a string is \<open>ab\<close>, the hook receives \<open>ab\<close> twice and neither element.  The
  hook here records what it receives.
\<close>

theorem sort_iterable_passes_the_iterable:
  "CollectionSort_sort (\<lambda>k s. Inr (s @ [k])) (Iterable ''ab'' [''a'', ''b'']) [] [] = Inr [''ab'', ''ab'']
   \<and> sort_per_element (\<lambda>k s. Inr (s @ [k])) [''a'', ''b''] [] = Inr [''a'', ''b'']"
  by (simp add: sort_iterable_def sort_per_element_def)

text \<open>
  C5.  A call \<^verbatim>\<open>sort(k, ks...)\<close> with text keys calls the hook \<^verbatim>\<open>do_sort\<close> once per key, in
  the order of the arguments, exactly as the statements \<^verbatim>\<open>sort(k); sort(k1); ...\<close> do, and
  stops at the first key the hook rejects.  With the hook of the specification (append,
  after rejecting a blank key) on a state that is being built, the list of sort keys
  grows by all the keys given, equal ones included, in that order, and the encoded
  request carries that list.
\<close>

theorem sort_keys_in_declaration_order:
  "CollectionSort_sort h (Text k) (map Text ks) s =
     (case in_sequence h (k # ks) s of Inl e \<Rightarrow> Inl (Raised e) | Inr s' \<Rightarrow> Inr s')
   \<and> (lifecycle x = Building \<and> (\<forall>j\<in>set (k # ks). \<not> blank j) \<longrightarrow>
        (\<exists>x'. CollectionSort_sort FindExec_do_sort (Text k) (map Text ks) x = Inr x'
           \<and> sort_keys (op_state x') = sort_keys (op_state x) @ k # ks
           \<and> req_sort (encode_find coll (op_state x')) = sort_keys (op_state x) @ k # ks))"
proof -
  have "CollectionSort_sort FindExec_do_sort (Text k) (map Text ks) x =
      Inr (x\<lparr>op_state := (op_state x)\<lparr>sort_keys := sort_keys (op_state x) @ k # ks\<rparr>\<rparr>)"
    if "lifecycle x = Building" "\<forall>j\<in>set (k # ks). \<not> blank j"
    using do_sort_sequence [OF that] by (simp only: sort_text_sequence sum.case)
  then show ?thesis by (simp add: sort_text_sequence encode_find_def)
qed

theorem sort_keys_in_declaration_order_witness:
  "lifecycle (CollectionFind_find None :: unit FindState Executable) = Building
   \<and> \<not> blank ''a'' \<and> \<not> blank ''b''
   \<and> (\<exists>x'. CollectionSort_sort FindExec_do_sort (Text ''a'') (map Text [''b'', ''a''])
              (CollectionFind_find None :: unit FindState Executable) = Inr x'
         \<and> sort_keys (op_state x') = [''a'', ''b'', ''a'']
         \<and> req_sort (encode_find 0 (op_state x') :: (unit, unit) request) = [''a'', ''b'', ''a''])"
proof -
  let ?x = "CollectionFind_find None :: unit FindState Executable"
  have l: "lifecycle ?x = Building" and e: "sort_keys (op_state ?x) = []"
    by (simp_all add: CollectionFind_find_def)
  have b: "\<not> blank ''a''" "\<not> blank ''b''"
    by (simp_all add: blank_def)
  have h: "lifecycle ?x = Building \<and> (\<forall>j\<in>set (''a'' # [''b'', ''a'']). \<not> blank j)"
    using l b by simp
  note t = sort_keys_in_declaration_order
      [where k = "''a''" and ks = "[''b'', ''a'']" and x = ?x and coll = 0,
       THEN conjunct2, THEN mp, OF h]
  then have "\<exists>x'. CollectionSort_sort FindExec_do_sort (Text ''a'') (map Text [''b'', ''a'']) ?x = Inr x'
         \<and> sort_keys (op_state x') = [''a'', ''b'', ''a'']
         \<and> req_sort (encode_find 0 (op_state x') :: (unit, unit) request) = [''a'', ''b'', ''a'']"
    by (simp only: e append_Nil)
  with l b show ?thesis by (intro conjI)
qed

lemma sort_null_dereference:
  "(CollectionSort_sort h a rest s = Inl NullDereference) =
     ((\<exists>c. last (a # rest) = Iterable c [])
      \<and> (\<exists>s'. in_sequence h (map as_string (butlast (a # rest))) s = Inr s'))"
proof (induction rest arbitrary: a s)
  case Nil
  then show ?case by (cases a) (auto simp: sort_iterable_null split: sum.splits)
next
  case (Cons r rest)
  show ?case
  proof (cases "h (as_string a) s")
    case (Inl e)
    then show ?thesis by simp
  next
    case (Inr s1)
    then show ?thesis using Cons [of r s1] by simp
  qed
qed

text \<open>
  C8.  A \<^verbatim>\<open>sort\<close> call dereferences the null pointer exactly when its last argument goes
  to the iterable overload and is empty, and the \<^verbatim>\<open>do_sort\<close> calls for the arguments
  before it all return.  For the iterable overload alone: exactly when the iterable is
  empty.  A call whose arguments are all text keys never does.
\<close>

theorem sort_null_exactly_for_empty_iterable:
  "(CollectionSort_sort h (Iterable c els) [] s = Inl NullDereference) = (els = [])
   \<and> (CollectionSort_sort h a rest s = Inl NullDereference) =
       ((\<exists>c. last (a # rest) = Iterable c [])
        \<and> (\<exists>s'. in_sequence h (map as_string (butlast (a # rest))) s = Inr s'))
   \<and> CollectionSort_sort h (Text k) (map Text ks) s \<noteq> Inl NullDereference"
  by (simp add: sort_iterable_null sort_null_dereference sort_text_sequence split: sum.splits)

theorem sort_null_exactly_for_empty_iterable_witness:
  "CollectionSort_sort (\<lambda>k s. Inr (s @ [k])) (Iterable ''ab'' ([] :: string list)) [] []
     = Inl NullDereference
   \<and> CollectionSort_sort (\<lambda>k s. Inr (s @ [k])) (Iterable ''ab'' [''a'']) [] []
       \<noteq> Inl NullDereference"
  using sort_null_exactly_for_empty_iterable
    [where h = "\<lambda>k s. Inr (s @ [k])" and c = "''ab''" and els = "[] :: string list" and s = "[]"]
    sort_null_exactly_for_empty_iterable
    [where h = "\<lambda>k s. Inr (s @ [k])" and c = "''ab''" and els = "[''a'']" and s = "[]"]
  by blast

section \<open>Properties of \<^verbatim>\<open>add\<close>\<close>

lemma CATCH_AND_WRAP_Inr: "(CATCH_AND_WRAP w r = Inr v) = (r = Inr v)"
  by (simp add: CATCH_AND_WRAP_def split: sum.splits)

lemma CollectionAdd_do_add_coll:
  "CollectionAdd_do_add impl d a = Inr a' \<Longrightarrow> m_coll a' = m_coll a"
  by (auto simp: CollectionAdd_do_add_def split: sum.splits)

lemma CollectionAdd_add_coll:
  "CollectionAdd_add impl d ds a = Some (Inr a') \<Longrightarrow> m_coll a' = m_coll a"
  by (cases ds) (simp_all add: CollectionAdd_do_add_coll)

lemma CollectionAdd_move_coll: "m_coll (fst (CollectionAdd_move impl a)) = m_coll a"
  by (simp add: CollectionAdd_move_def split: prod.splits)

lemma CollectionAddBase_add_coll:
  assumes "CollectionAddBase_add impl d ds base = Some (Inr a)"
  shows "m_coll a = m_coll base"
proof (cases ds)
  case Nil
  with assms show ?thesis
    by (auto simp: CollectionAddBase_do_add_def CollectionAdd_ctor_def split: sum.splits
        dest: CollectionAdd_do_add_coll)
next
  case (Cons r rest)
  show ?thesis
  proof (cases rest)
    case Nil
    with assms Cons show ?thesis
      by (auto simp: CollectionAddBase_do_add_def CollectionAdd_ctor_def CATCH_AND_WRAP_Inr
          CollectionAdd_move_coll split: sum.splits
          dest!: CollectionAdd_do_add_coll)
  next
    case (Cons r' rest')
    with assms \<open>ds = r # rest\<close> show ?thesis by simp
  qed
qed

subsection \<open>With the hooks of the specification\<close>

lemma spec_impl_simps:
  "Executable_ctor (spec_impl left) = \<lparr>op_state = \<lparr>docs = []\<rparr>, lifecycle = Building\<rparr>"
  "Executable_move (spec_impl left) = Executable_moved left"
  "initialize (spec_impl left) = CollectionAdd_initialize"
  "do_add (spec_impl left) = AddState_do_add"
  "wrap (spec_impl left) = (\<lambda>e. e)"
  by (simp_all add: spec_impl_def)

lemma spec_do_add:
  "(CollectionAdd_do_add (spec_impl left) d a = Inr a') =
     (lifecycle (executable a) = Building \<and>
      a' = a\<lparr>executable := (executable a)
             \<lparr>op_state := (op_state (executable a))
                \<lparr>docs := docs (op_state (executable a)) @ [d]\<rparr>\<rparr>\<rparr>)"
  by (auto simp: CollectionAdd_do_add_def spec_impl_simps AddState_do_add_def mutate_def)

lemma spec_add_docs:
  "CollectionAdd_add (spec_impl left) d ds a = Some (Inr a') \<Longrightarrow>
     docs (op_state (executable a')) = docs (op_state (executable a)) @ [d]
     \<and> lifecycle (executable a') = Building"
  by (cases ds) (auto simp: spec_do_add)

lemma spec_ctor:
  "CollectionAdd_ctor (spec_impl left) c d =
     Inr \<lparr>m_coll = c, executable = \<lparr>op_state = \<lparr>docs = [d]\<rparr>, lifecycle = Building\<rparr>\<rparr>"
  by (simp add: CollectionAdd_ctor_def spec_impl_simps CollectionAdd_initialize_def
      CollectionAdd_do_add_def AddState_do_add_def mutate_def)

lemma spec_move:
  "CollectionAdd_move (spec_impl left) a =
     (a, a\<lparr>executable := \<lparr>op_state = left, lifecycle = MovedFrom\<rparr>\<rparr>)"
  by (simp add: CollectionAdd_move_def spec_impl_simps Executable_moved_def)

lemma spec_base_do_add:
  "CollectionAddBase_do_add (spec_impl left) d base =
     Inr \<lparr>m_coll = m_coll base,
           executable = \<lparr>op_state = \<lparr>docs = [d]\<rparr>, lifecycle = Building\<rparr>\<rparr>"
  by (simp add: CollectionAddBase_do_add_def spec_ctor)

lemma spec_base_add_one:
  "CollectionAddBase_add (spec_impl left) d [] base =
     Some (Inr \<lparr>m_coll = m_coll base,
                executable = \<lparr>op_state = \<lparr>docs = [d]\<rparr>, lifecycle = Building\<rparr>\<rparr>)"
  by (simp add: CollectionAddBase_do_add_def spec_ctor)

lemma spec_base_add_two:
  "CollectionAddBase_add (spec_impl left) d [e] base =
     Some (Inr \<lparr>m_coll = m_coll base,
                executable = \<lparr>op_state = \<lparr>docs = [d, e]\<rparr>, lifecycle = Building\<rparr>\<rparr>)"
  by (simp add: CollectionAddBase_do_add_def spec_ctor CATCH_AND_WRAP_def spec_move
      CollectionAdd_do_add_def spec_impl_simps AddState_do_add_def mutate_def)

lemma spec_base_add:
  assumes "CollectionAddBase_add (spec_impl left) d ds base = Some (Inr a)"
  shows "docs (op_state (executable a)) = d # ds \<and> lifecycle (executable a) = Building"
proof (cases ds)
  case Nil
  with assms show ?thesis by (auto simp: spec_base_do_add)
next
  case (Cons r rest)
  show ?thesis
  proof (cases rest)
    case Nil
    with assms Cons spec_base_add_two [of left d r base] show ?thesis by auto
  next
    case (Cons r' rest')
    with assms \<open>ds = r # rest\<close> show ?thesis by simp
  qed
qed

lemma execute_keeps_state:
  "Executable_execute v enc sub x w = (r, x', w') \<Longrightarrow>
     op_state x' = op_state x \<and> (lifecycle x' = MovedFrom) = (lifecycle x = MovedFrom)"
  by (auto simp: Executable_execute_def split: if_splits option.splits sum.splits)

lemma execute_wire:
  "lifecycle x = Building \<or> lifecycle x = Rebound \<Longrightarrow> v (op_state x) = None \<Longrightarrow>
     snd (snd (Executable_execute v enc sub x w)) = w @ [enc (op_state x)]"
  by (auto simp: Executable_execute_def split: sum.splits)

lemma reachable_add_invariant:
  "reachable_add base a \<Longrightarrow>
     (lifecycle (executable a) \<noteq> MovedFrom \<longrightarrow> docs (op_state (executable a)) \<noteq> [])
     \<and> m_coll a = m_coll base"
proof (induction rule: reachable_add.induct)
  case (first_add left d ds a)
  with spec_base_add [of left d ds base a] CollectionAddBase_add_coll [of "spec_impl left" d ds base a]
  show ?case by simp
next
  case (next_add a left d ds a')
  with spec_add_docs [of left d ds a a'] CollectionAdd_add_coll [of "spec_impl left" d ds a a']
  show ?case by simp
next
  case (move_new a left)
  then show ?case by (simp add: spec_move)
next
  case (move_source a left)
  then show ?case by (simp add: spec_move)
next
  case (executed a submit wire r a' wire')
  then show ?case
    by (auto simp: CollectionAdd_execute_def split: prod.splits dest: execute_keeps_state)
qed

lemma execute_on_live_add:
  assumes "lifecycle (executable a) \<noteq> MovedFrom \<longrightarrow> docs (op_state (executable a)) \<noteq> []"
  shows "CollectionAdd_execute submit a wire = (Inl StageMisuse, a, wire)
     \<or> (\<exists>rq. snd (snd (CollectionAdd_execute submit a wire)) = wire @ [rq] \<and> req_docs rq \<noteq> [])"
proof (cases "lifecycle (executable a) = MovedFrom \<or> lifecycle (executable a) = Executed")
  case True
  then show ?thesis
    by (simp add: CollectionAdd_execute_def Executable_execute_def)
next
  case False
  with assms have d: "docs (op_state (executable a)) \<noteq> []" by simp
  from False have l: "lifecycle (executable a) = Building \<or> lifecycle (executable a) = Rebound"
    by (cases "lifecycle (executable a)") simp_all
  have "snd (snd (Executable_execute validate_add (encode_add (m_coll a)) submit (executable a) wire))
      = wire @ [encode_add (m_coll a) (op_state (executable a))]"
    using l d by (intro execute_wire) (simp_all add: validate_add_def)
  then have "snd (snd (CollectionAdd_execute submit a wire))
      = wire @ [encode_add (m_coll a) (op_state (executable a))]"
    by (auto simp: CollectionAdd_execute_def split: prod.splits)
  moreover have "req_docs (encode_add (m_coll a) (op_state (executable a))) \<noteq> []"
    using d by (simp add: encode_add_def)
  ultimately show ?thesis by blast
qed

text \<open>
  C1.  \<^verbatim>\<open>CollectionAddBase\<close> exposes \<^verbatim>\<open>add\<close> and nothing else, in particular no \<^verbatim>\<open>execute\<close>;
  its \<^verbatim>\<open>add\<close> returns a \<^verbatim>\<open>CollectionAdd\<close>, which exposes \<^verbatim>\<open>execute\<close>.  Every \<^verbatim>\<open>CollectionAdd\<close>
  that a program can reach from a \<^verbatim>\<open>CollectionAddBase\<close> and that was not moved from has at
  least one document in its list, whatever a move leaves in its source.  So \<^verbatim>\<open>execute\<close> on
  a reachable \<^verbatim>\<open>CollectionAdd\<close> never meets an empty list: either it fails with StageMisuse
  and nothing goes on the wire, or the request it puts on the wire carries at least one
  document.
\<close>

theorem add_execute_needs_a_document:
  "map fst (members CollectionAddBase) = [add_m]
   \<and> lookup CollectionAddBase execute_m = None
   \<and> lookup CollectionAddBase add_m = Some CollectionAdd
   \<and> lookup CollectionAdd execute_m = Some Result
   \<and> (reachable_add base a \<longrightarrow>
        (lifecycle (executable a) \<noteq> MovedFrom \<longrightarrow> docs (op_state (executable a)) \<noteq> [])
        \<and> (CollectionAdd_execute submit a wire = (Inl StageMisuse, a, wire)
           \<or> (\<exists>rq. snd (snd (CollectionAdd_execute submit a wire)) = wire @ [rq]
                 \<and> req_docs rq \<noteq> [])))"
proof -
  have surface: "map fst (members CollectionAddBase) = [add_m]"
    "lookup CollectionAddBase execute_m = None"
    "lookup CollectionAddBase add_m = Some CollectionAdd"
    "lookup CollectionAdd execute_m = Some Result"
    by (simp_all add: member_defs)
  have "(lifecycle (executable a) \<noteq> MovedFrom \<longrightarrow> docs (op_state (executable a)) \<noteq> [])
        \<and> (CollectionAdd_execute submit a wire = (Inl StageMisuse, a, wire)
           \<or> (\<exists>rq. snd (snd (CollectionAdd_execute submit a wire)) = wire @ [rq]
                 \<and> req_docs rq \<noteq> []))"
    if "reachable_add base a"
  proof -
    from reachable_add_invariant [OF that]
    have i: "lifecycle (executable a) \<noteq> MovedFrom \<longrightarrow> docs (op_state (executable a)) \<noteq> []"
      by simp
    from i execute_on_live_add [OF i, of submit wire] show ?thesis by (intro conjI)
  qed
  with surface show ?thesis by simp
qed

theorem add_execute_needs_a_document_witness:
  "reachable_add \<lparr>m_coll = 7\<rparr>
     \<lparr>m_coll = 7, executable = \<lparr>op_state = \<lparr>docs = [Json ''{}'' :: unit document]\<rparr>,
                                 lifecycle = Building\<rparr>\<rparr>
   \<and> lifecycle (executable
        \<lparr>m_coll = 7, executable = \<lparr>op_state = \<lparr>docs = [Json ''{}'' :: unit document]\<rparr>,
                                    lifecycle = Building\<rparr>\<rparr>) \<noteq> MovedFrom
   \<and> docs (op_state (executable
        \<lparr>m_coll = 7, executable = \<lparr>op_state = \<lparr>docs = [Json ''{}'' :: unit document]\<rparr>,
                                    lifecycle = Building\<rparr>\<rparr>)) \<noteq> []"
proof -
  let ?a = "\<lparr>m_coll = 7, executable = \<lparr>op_state = \<lparr>docs = [Json ''{}'' :: unit document]\<rparr>,
                                         lifecycle = Building\<rparr>\<rparr>"
  have "CollectionAddBase_add (spec_impl \<lparr>docs = []\<rparr>) (Json ''{}'') [] \<lparr>m_coll = 7\<rparr> = Some (Inr ?a)"
    by (simp add: spec_base_do_add)
  then have r: "reachable_add \<lparr>m_coll = 7\<rparr> ?a"
    by (rule reachable_add.first_add)
  have l: "lifecycle (executable ?a) \<noteq> MovedFrom"
    by simp
  note t = add_execute_needs_a_document
      [where base = "\<lparr>m_coll = 7\<rparr>" and a = ?a,
       THEN conjunct2, THEN conjunct2, THEN conjunct2, THEN conjunct2, THEN mp, OF r,
       THEN conjunct1, THEN mp, OF l]
  from r l t show ?thesis by (intro conjI)
qed

text \<open>
  C2.  The header means \<^verbatim>\<open>add(d1, ..., dN)\<close> to add the documents one after the other
  (comment at lines 159-162), and for two documents on the entry builder it does: the
  builder returned holds both, in the order of the arguments.  But the variadic template
  is ill-formed where \<open>R\<close> is \<^verbatim>\<open>CollectionAdd&\<close> (line 177 returns \<^verbatim>\<open>std::move(...)\<close> as a
  non-const lvalue reference), so a call with two documents or more on a \<^verbatim>\<open>CollectionAdd\<close>
  and a call with three or more on the entry builder do not compile.
\<close>

theorem variadic_add_beyond_two_does_not_compile:
  "CollectionAdd_add impl a (b # rest) r = None
   \<and> CollectionAddBase_add impl a (b # c # rest) base = None
   \<and> CollectionAddBase_add (spec_impl left) a [] base =
       Some (Inr \<lparr>m_coll = m_coll base,
                  executable = \<lparr>op_state = \<lparr>docs = [a]\<rparr>, lifecycle = Building\<rparr>\<rparr>)
   \<and> CollectionAddBase_add (spec_impl left) a [b] base =
       Some (Inr \<lparr>m_coll = m_coll base,
                  executable = \<lparr>op_state = \<lparr>docs = [a, b]\<rparr>, lifecycle = Building\<rparr>\<rparr>)"
  using spec_base_add_one [of left a base] spec_base_add_two [of left a b base]
  by (simp del: CollectionAddBase_add.simps(1,2))

text \<open>
  C10.  The move constructor gives a builder with the \<^verbatim>\<open>m_coll\<close> of its source, whose
  \<^verbatim>\<open>Executable\<close> part is what the move constructor of \<^verbatim>\<open>Executable\<close> makes of the source's;
  with the move of the specification the new builder equals the source as it was.
  \<^verbatim>\<open>add\<close>, on a \<^verbatim>\<open>CollectionAdd\<close> or on a \<^verbatim>\<open>CollectionAddBase\<close>, returns a builder for the same
  collection, whatever the hooks do; and so every builder reachable from a
  \<^verbatim>\<open>CollectionAddBase\<close> addresses the collection of that base.
\<close>

theorem move_keeps_collection_and_operation:
  "m_coll (fst (CollectionAdd_move impl other)) = m_coll other
   \<and> executable (fst (CollectionAdd_move impl other)) = fst (Executable_move impl (executable other))
   \<and> fst (CollectionAdd_move (spec_impl left) a) = a
   \<and> (CollectionAdd_add impl d ds other = Some (Inr a') \<longrightarrow> m_coll a' = m_coll other)
   \<and> (CollectionAddBase_add impl d ds base = Some (Inr a') \<longrightarrow> m_coll a' = m_coll base)
   \<and> (reachable_add base' r \<longrightarrow> m_coll r = m_coll base')"
proof -
  have "executable (fst (CollectionAdd_move impl other))
      = fst (Executable_move impl (executable other))"
    by (simp add: CollectionAdd_move_def split: prod.splits)
  with CollectionAdd_move_coll [of impl other] CollectionAdd_add_coll [of impl d ds other a']
    CollectionAddBase_add_coll [of impl d ds base a'] reachable_add_invariant [of base' r]
  show ?thesis by (simp add: spec_move)
qed

theorem move_keeps_collection_and_operation_witness:
  "reachable_add \<lparr>m_coll = 7\<rparr>
     (fst (CollectionAdd_move (spec_impl \<lparr>docs = []\<rparr>)
        \<lparr>m_coll = 7, executable = \<lparr>op_state = \<lparr>docs = [Json ''{}'' :: unit document]\<rparr>,
                                    lifecycle = Building\<rparr>\<rparr>))
   \<and> m_coll (fst (CollectionAdd_move (spec_impl \<lparr>docs = []\<rparr>)
        \<lparr>m_coll = 7, executable = \<lparr>op_state = \<lparr>docs = [Json ''{}'' :: unit document]\<rparr>,
                                    lifecycle = Building\<rparr>\<rparr>)) = 7"
proof -
  let ?a = "\<lparr>m_coll = 7, executable = \<lparr>op_state = \<lparr>docs = [Json ''{}'' :: unit document]\<rparr>,
                                         lifecycle = Building\<rparr>\<rparr>"
  have "CollectionAddBase_add (spec_impl \<lparr>docs = []\<rparr>) (Json ''{}'') [] \<lparr>m_coll = 7\<rparr> = Some (Inr ?a)"
    by (simp add: spec_base_do_add)
  then have "reachable_add \<lparr>m_coll = 7\<rparr> ?a"
    by (rule reachable_add.first_add)
  then have r: "reachable_add \<lparr>m_coll = 7\<rparr> (fst (CollectionAdd_move (spec_impl \<lparr>docs = []\<rparr>) ?a))"
    by (rule reachable_add.move_new)
  note t = move_keeps_collection_and_operation
      [where base' = "\<lparr>m_coll = 7\<rparr>"
         and r = "fst (CollectionAdd_move (spec_impl \<lparr>docs = []\<rparr>) ?a)",
       THEN conjunct2, THEN conjunct2, THEN conjunct2, THEN conjunct2, THEN conjunct2,
       THEN mp, OF r]
  from r t show ?thesis by simp
qed

section \<open>Properties of the modelled state\<close>

text \<open>
  C6.  On a state that is being built, \<^verbatim>\<open>limit(a)\<close> then \<^verbatim>\<open>limit(b)\<close> leaves the limit \<open>b\<close> in
  the state and in the encoded request, and likewise for \<^verbatim>\<open>offset\<close>; on a state that was
  not moved from, two \<^verbatim>\<open>bind\<close> calls for one valid parameter name leave the value of the
  second.
\<close>

theorem limit_offset_bind_last_write_wins:
  "(lifecycle x = Building \<longrightarrow>
      (\<exists>x'. in_sequence FindExec_do_limit [a, b] x = Inr x'
         \<and> limit_rows (op_state x') = Some b
         \<and> req_limit (encode_find coll (op_state x')) = Some b)
      \<and> (\<exists>x'. in_sequence FindExec_do_offset [a, b] x = Inr x'
           \<and> offset_rows (op_state x') = Some b
           \<and> req_offset (encode_find coll (op_state x')) = Some b))
   \<and> (lifecycle x \<noteq> MovedFrom \<and> valid_param_name p \<longrightarrow>
        (\<exists>x'. in_sequence BindExec_bind [(p, v), (p, v')] x = Inr x'
           \<and> bindings (op_state x') p = Some v'
           \<and> req_bindings (encode_find coll (op_state x')) p = Some v'))"
  by (simp add: FindExec_do_limit_def FindExec_do_offset_def BindExec_bind_def mutate_def
      encode_find_def)

theorem limit_offset_bind_last_write_wins_witness:
  "lifecycle (CollectionFind_find None :: nat FindState Executable) = Building
   \<and> valid_param_name ''x''
   \<and> (\<exists>x'. in_sequence FindExec_do_limit [10, 3]
              (CollectionFind_find None :: nat FindState Executable) = Inr x'
         \<and> limit_rows (op_state x') = Some 3
         \<and> req_limit (encode_find 0 (op_state x') :: (unit, nat) request) = Some 3)
   \<and> (\<exists>x'. in_sequence BindExec_bind [(''x'', 1), (''x'', 2)]
              (CollectionFind_find None :: nat FindState Executable) = Inr x'
         \<and> bindings (op_state x') ''x'' = Some 2
         \<and> req_bindings (encode_find 0 (op_state x') :: (unit, nat) request) ''x'' = Some 2)"
proof -
  let ?x = "CollectionFind_find None :: nat FindState Executable"
  have l: "lifecycle ?x = Building"
    by (simp add: CollectionFind_find_def)
  then have m: "lifecycle ?x \<noteq> MovedFrom \<and> valid_param_name ''x''"
    by (simp add: name_start_def)
  note t = limit_offset_bind_last_write_wins
    [where x = ?x and a = 10 and b = 3 and p = "''x''" and v = 1 and v' = 2 and coll = 0]
  from t [THEN conjunct1, THEN mp, OF l, THEN conjunct1] t [THEN conjunct2, THEN mp, OF m] l m
  show ?thesis by (intro conjI) simp_all
qed

lemma call_after_execute:
  "FindExec_call c x = Inr x' \<Longrightarrow> lifecycle x \<in> {Executed, Rebound} \<Longrightarrow>
     is_bind c \<and> lifecycle x' = Rebound"
  by (cases c)
     (auto simp: FindExec_do_sort_def FindExec_do_limit_def FindExec_do_offset_def
       mutate_def BindExec_bind_def split: if_splits)

lemma calls_after_execute:
  "in_sequence FindExec_call cs x = Inr x' \<Longrightarrow> lifecycle x \<in> {Executed, Rebound} \<Longrightarrow>
     (\<forall>c\<in>set cs. is_bind c) \<and> lifecycle x' = (if cs = [] then lifecycle x else Rebound)"
proof (induction cs arbitrary: x)
  case Nil
  then show ?case by simp
next
  case (Cons c cs)
  from Cons.prems obtain x1 where x1: "FindExec_call c x = Inr x1"
    and rest: "in_sequence FindExec_call cs x1 = Inr x'"
    by (auto split: sum.splits)
  from call_after_execute [OF x1 Cons.prems(2)]
  have c: "is_bind c" "lifecycle x1 = Rebound" by auto
  from Cons.IH [OF rest] c show ?case by auto
qed

lemma non_bind_rejected:
  "lifecycle y \<noteq> Building \<Longrightarrow> \<not> is_bind c \<Longrightarrow> FindExec_call c y = Inl StageMisuse"
  by (cases c)
     (simp_all add: FindExec_do_sort_def FindExec_do_limit_def FindExec_do_offset_def mutate_def)

text \<open>
  C7.  \<^verbatim>\<open>execute\<close> on a state that was moved from, or that was executed and not rebound
  since, fails with StageMisuse and leaves the state and the wire as they were; the
  source of a move is such a state whatever the move leaves in it, and so is the state a successful \<^verbatim>\<open>execute\<close> leaves.
  After an \<^verbatim>\<open>execute\<close> every call but \<^verbatim>\<open>bind\<close> is rejected with StageMisuse, so the calls made
  since, if they all returned, were \<^verbatim>\<open>bind\<close> calls; with none of them \<^verbatim>\<open>execute\<close> fails again,
  and with at least one it runs: when the checks pass and the session answers, it
  returns that result and puts the request on the wire.
\<close>

theorem execute_is_single_shot:
  "(lifecycle x = MovedFrom \<or> lifecycle x = Executed \<longrightarrow>
      Executable_execute v enc sub x w = (Inl StageMisuse, x, w))
   \<and> lifecycle (snd (Executable_moved left x)) = MovedFrom
   \<and> (Executable_execute v enc sub x w = (Inr res, x', w') \<longrightarrow> lifecycle x' = Executed)
   \<and> (lifecycle y \<noteq> Building \<and> \<not> is_bind c \<longrightarrow> FindExec_call c y = Inl StageMisuse)
   \<and> (lifecycle y = Executed \<and> in_sequence FindExec_call cs y = Inr y' \<longrightarrow>
        (\<forall>c\<in>set cs. is_bind c)
        \<and> (cs = [] \<longrightarrow> Executable_execute u enc' sub' y' w = (Inl StageMisuse, y', w))
        \<and> (cs \<noteq> [] \<and> u (op_state y') = None \<and> sub' (enc' (op_state y')) = Inr res' \<longrightarrow>
             Executable_execute u enc' sub' y' w
               = (Inr res', y'\<lparr>lifecycle := Executed\<rparr>, w @ [enc' (op_state y')])))"
proof -
  have reject: "Executable_execute v enc sub x w = (Inl StageMisuse, x, w)"
    if "lifecycle x = MovedFrom \<or> lifecycle x = Executed"
    using that by (simp add: Executable_execute_def)
  have moved: "lifecycle (snd (Executable_moved left x)) = MovedFrom"
    by (simp add: Executable_moved_def)
  have ran: "lifecycle x' = Executed" if "Executable_execute v enc sub x w = (Inr res, x', w')"
    using that
    by (auto simp: Executable_execute_def split: if_splits option.splits sum.splits)
  have again: "(\<forall>c\<in>set cs. is_bind c)
        \<and> (cs = [] \<longrightarrow> Executable_execute u enc' sub' y' w = (Inl StageMisuse, y', w))
        \<and> (cs \<noteq> [] \<and> u (op_state y') = None \<and> sub' (enc' (op_state y')) = Inr res' \<longrightarrow>
             Executable_execute u enc' sub' y' w
               = (Inr res', y'\<lparr>lifecycle := Executed\<rparr>, w @ [enc' (op_state y')]))"
    if "lifecycle y = Executed" "in_sequence FindExec_call cs y = Inr y'"
  proof -
    from calls_after_execute [OF that(2)] that(1)
    have b: "\<forall>c\<in>set cs. is_bind c" and l: "lifecycle y' = (if cs = [] then Executed else Rebound)"
      by simp_all
    from l show ?thesis
      by (auto simp: b Executable_execute_def)
  qed
  from reject moved ran again non_bind_rejected [of y c] show ?thesis by blast
qed

theorem execute_is_single_shot_witness:
  "lifecycle ((CollectionFind_find None :: nat FindState Executable)\<lparr>lifecycle := Executed\<rparr>) = Executed
   \<and> Executable_execute (\<lambda>st. None) (encode_find 0 :: nat FindState \<Rightarrow> (unit, nat) request)
        (\<lambda>rq. Inr ()) ((CollectionFind_find None)\<lparr>lifecycle := Executed\<rparr>) []
      = (Inl StageMisuse, (CollectionFind_find None)\<lparr>lifecycle := Executed\<rparr>, [])
   \<and> in_sequence FindExec_call [bind_call ''x'' 1]
        ((CollectionFind_find None)\<lparr>lifecycle := Executed\<rparr>)
      = Inr ((CollectionFind_find (None :: string option))
              \<lparr>op_state := (op_state (CollectionFind_find None))\<lparr>bindings := [''x'' \<mapsto> (1::nat)]\<rparr>,
                lifecycle := Rebound\<rparr>)
   \<and> is_bind (bind_call ''x'' (1::nat))"
proof -
  let ?y = "(CollectionFind_find None :: nat FindState Executable)\<lparr>lifecycle := Executed\<rparr>"
  let ?y' = "(CollectionFind_find (None :: string option))
              \<lparr>op_state := (op_state (CollectionFind_find None))\<lparr>bindings := [''x'' \<mapsto> (1::nat)]\<rparr>,
                lifecycle := Rebound\<rparr>"
  have l: "lifecycle ?y = Executed"
    by simp
  have s: "in_sequence FindExec_call [bind_call ''x'' 1] ?y = Inr ?y'"
    by (simp add: BindExec_bind_def name_start_def CollectionFind_find_def)
  note t = execute_is_single_shot
    [where x = ?y and y = ?y and cs = "[bind_call ''x'' 1]" and y' = ?y' and v = "\<lambda>st. None"
       and enc = "encode_find 0 :: nat FindState \<Rightarrow> (unit, nat) request" and sub = "\<lambda>rq. Inr ()"
       and w = "[]"]
  have "\<forall>c\<in>set [bind_call ''x'' (1::nat)]. is_bind c"
    using t [THEN conjunct2, THEN conjunct2, THEN conjunct2, THEN conjunct2, THEN mp,
        OF conjI [OF l s], THEN conjunct1] .
  then have b: "is_bind (bind_call ''x'' (1::nat))"
    by simp
  from l s b t [THEN conjunct1, THEN mp, OF disjI2 [OF l]]
  show ?thesis by (intro conjI)
qed

end
